theory Spec2Isabelle
  imports Main "HOL-Library.Word" "HOL-Library.Signed_Division"
begin

unbundle bit_operations_syntax

section \<open>The ILI9341 display driver (ili9341.c)\<close>

text \<open>
  The driver talks to the panel through two transport operations, \<open>lcd_cmd\<close> (one
  command byte) and \<open>lcd_data\<close> (\<open>len\<close> bytes read from a buffer). A run of the driver
  is modelled by the list of transport operations it performs, in order. Integers are
  modelled with their C widths: \<open>uint16_t\<close> and \<open>int16_t\<close> are 16-bit words (read
  unsigned by \<open>uint\<close>, signed by \<open>sint\<close>), the promoted \<open>int\<close> arithmetic of C is
  arithmetic on \<open>int\<close>, and conversions back to a narrower type wrap around.
\<close>

subsection \<open>Machine integers and the transport\<close>

type_synonym u8 = "8 word"
type_synonym u16 = "16 word"
type_synonym u32 = "32 word"

text \<open>One operation on the SPI transport: a command byte, or a block of data bytes.\<close>

datatype spi_event = Command u8 | Data "u8 list"

text \<open>
  Accesses outside an array are undefined in C. Two of them are branches of the model
  that end the run: a transfer whose length is not covered by the buffer it reads from
  (the transport is asked for a length that is negative or reaches beyond the buffer),
  and a write outside the transfer buffer. A read outside the font bitmap returns what
  the memory next to the bitmap holds; that memory is a parameter of the model.
\<close>

datatype fault =
    TransferOutOfBuffer int
  | BufferWriteOutOfBounds int

type_synonym trace = "fault + spi_event list"

text \<open>Sequencing of two driver steps: the first fault stops the run.\<close>

fun seq :: "trace \<Rightarrow> trace \<Rightarrow> trace" where
  "seq (Inl e) _ = Inl e"
| "seq (Inr a) (Inl e) = Inl e"
| "seq (Inr a) (Inr b) = Inr (a @ b)"

text \<open>The macros \<open>HighByte(x) = x >> 8\<close> and \<open>LowByte(x) = x & 0xFF\<close>, stored in a byte.\<close>

definition HighByte :: "u16 \<Rightarrow> u8" where
  "HighByte x = ucast (drop_bit 8 x)"

definition LowByte :: "u16 \<Rightarrow> u8" where
  "LowByte x = ucast (x AND 0xFF)"

definition MAX_VALUE_SIZE :: int where "MAX_VALUE_SIZE = 256"
definition SEND_PIXELS :: u8 where "SEND_PIXELS = 0x00"
definition COLUMN_ADDR_SET :: u8 where "COLUMN_ADDR_SET = 0x2A"
definition PAGE_ADDR_SET :: u8 where "PAGE_ADDR_SET = 0x2B"
definition MEM_WRITE :: u8 where "MEM_WRITE = 0x2C"
definition MEM_ACC_CTRL :: u8 where "MEM_ACC_CTRL = 0x36"

text \<open>\<open>lcd_cmd_t\<close>: a command byte, a byte count and the buffer the bytes are read from.\<close>

record lcd_cmd_t =
  cmd :: u8
  databytes :: u32
  data :: "u8 list"

text \<open>\<open>lcd_cmd\<close> transmits the command byte (the chip-select flag does not change the bytes).\<close>

definition lcd_cmd :: "u8 \<Rightarrow> bool \<Rightarrow> trace" where
  "lcd_cmd c keep_cs_active = Inr [Command c]"

text \<open>
  \<open>lcd_data\<close> returns at once for \<open>len = 0\<close>; otherwise it transmits the first \<open>len\<close>
  bytes of the buffer. A length that is negative or larger than the buffer is a read
  outside the buffer.
\<close>

definition lcd_data :: "u8 list \<Rightarrow> int \<Rightarrow> trace" where
  "lcd_data buf len =
     (if len = 0 then Inr []
      else if 0 < len \<and> len \<le> int (length buf) then Inr [Data (take (nat len) buf)]
      else Inl (TransferOutOfBuffer len))"

text \<open>
  \<open>WriteLCD\<close>: the command is sent unless it is 0, the data unless \<open>databytes\<close> is 0.
  \<open>databytes\<close> is \<open>uint32_t\<close> and \<open>lcd_data\<close> takes an \<open>int\<close>, hence \<open>sint\<close>.
\<close>

definition WriteLCD :: "lcd_cmd_t \<Rightarrow> trace" where
  "WriteLCD d =
     seq (if cmd d \<noteq> 0 then lcd_cmd (cmd d) False else Inr [])
         (if databytes d \<noteq> 0 then lcd_data (data d) (sint (databytes d)) else Inr [])"

subsection \<open>The cursor window\<close>

definition SetCursorPosition :: "u16 \<Rightarrow> u16 \<Rightarrow> u16 \<Rightarrow> u16 \<Rightarrow> trace" where
  "SetCursorPosition x0 y0 x1 y1 =
     (let (x0, x1) = (if x0 > x1 then (x1, x0) else (x0, x1));
          (y0, y1) = (if y0 > y1 then (y1, y0) else (y0, y1));
          columns = [HighByte x0, LowByte x0, HighByte x1, LowByte x1];
          lcd_columns = \<lparr>cmd = COLUMN_ADDR_SET, databytes = 4, data = columns\<rparr>;
          rows = [HighByte y0, LowByte y0, HighByte y1, LowByte y1];
          lcd_rows = \<lparr>cmd = PAGE_ADDR_SET, databytes = 4, data = rows\<rparr>
      in seq (WriteLCD lcd_columns) (WriteLCD lcd_rows))"

subsection \<open>Orientation\<close>

datatype ili9341_orientation_t =
  ILI9341_Portrait_1 | ILI9341_Portrait_2 | ILI9341_Landscape_1 | ILI9341_Landscape_2

text \<open>
  Modelled from the spec: the header \<open>ili9341.h\<close> with the panel's native dimensions
  \<open>ILI9341_WIDTH\<close> and \<open>ILI9341_HEIGHT\<close> is missing. The spec gives a 240 by 320 panel:
  in Portrait1 the columns are 0 to 239 and the rows 0 to 319.
\<close>

definition ILI9341_WIDTH :: u16 where "ILI9341_WIDTH = 240"
definition ILI9341_HEIGHT :: u16 where "ILI9341_HEIGHT = 320"

record orientation_properties_t =
  width :: u16
  height :: u16
  orientation :: ili9341_orientation_t

text \<open>The initial value of the global \<open>lcd_orientation\<close>.\<close>

definition lcd_orientation :: orientation_properties_t where
  "lcd_orientation =
     \<lparr>width = ILI9341_WIDTH, height = ILI9341_HEIGHT, orientation = ILI9341_Portrait_1\<rparr>"

text \<open>The memory-access-control byte that \<open>ILI9341Rotate\<close> selects.\<close>

fun mem_acc :: "ili9341_orientation_t \<Rightarrow> u8" where
  "mem_acc ILI9341_Portrait_1 = 0x48"
| "mem_acc ILI9341_Portrait_2 = 0x88"
| "mem_acc ILI9341_Landscape_1 = 0x28"
| "mem_acc ILI9341_Landscape_2 = 0xE8"

text \<open>
  \<open>ILI9341Rotate\<close> overwrites the global \<open>lcd_orientation\<close> and sends the byte: it
  returns the trace and the new value of the global.
\<close>

fun ILI9341Rotate ::
  "ili9341_orientation_t \<Rightarrow> orientation_properties_t \<Rightarrow> trace \<times> orientation_properties_t"
where
  "ILI9341Rotate ILI9341_Portrait_1 s =
     (WriteLCD \<lparr>cmd = MEM_ACC_CTRL, databytes = 1, data = [mem_acc ILI9341_Portrait_1]\<rparr>,
      s\<lparr>width := ILI9341_WIDTH, height := ILI9341_HEIGHT, orientation := ILI9341_Portrait_1\<rparr>)"
| "ILI9341Rotate ILI9341_Portrait_2 s =
     (WriteLCD \<lparr>cmd = MEM_ACC_CTRL, databytes = 1, data = [mem_acc ILI9341_Portrait_2]\<rparr>,
      s\<lparr>width := ILI9341_WIDTH, height := ILI9341_HEIGHT, orientation := ILI9341_Portrait_2\<rparr>)"
| "ILI9341Rotate ILI9341_Landscape_1 s =
     (WriteLCD \<lparr>cmd = MEM_ACC_CTRL, databytes = 1, data = [mem_acc ILI9341_Landscape_1]\<rparr>,
      s\<lparr>width := ILI9341_HEIGHT, height := ILI9341_WIDTH, orientation := ILI9341_Landscape_1\<rparr>)"
| "ILI9341Rotate ILI9341_Landscape_2 s =
     (WriteLCD \<lparr>cmd = MEM_ACC_CTRL, databytes = 1, data = [mem_acc ILI9341_Landscape_2]\<rparr>,
      s\<lparr>width := ILI9341_HEIGHT, height := ILI9341_WIDTH, orientation := ILI9341_Landscape_2\<rparr>)"

text \<open>A sequence of rotate calls, each on the global left by the one before.\<close>

fun rotations ::
  "ili9341_orientation_t list \<Rightarrow> orientation_properties_t \<Rightarrow> trace list \<times> orientation_properties_t"
where
  "rotations [] s = ([], s)"
| "rotations (t # ts) s =
     (let (e, s') = ILI9341Rotate t s; (es, s'') = rotations ts s' in (e # es, s''))"

subsection \<open>Filling a rectangle\<close>

text \<open>
  The loop \<open>for (i = 0; i < MAX_VALUE_SIZE; i += 2)\<close> of \<open>Fill\<close> that writes the colour
  into the transfer buffer, high byte first. The counter \<open>i\<close> is \<open>uint16_t\<close> and ends at
  256: it is a natural number here.
\<close>

function Fill_pixel :: "u16 \<Rightarrow> nat \<Rightarrow> u8 list \<Rightarrow> u8 list" where
  "Fill_pixel color i pixel =
     (if int i < MAX_VALUE_SIZE
      then Fill_pixel color (i + 2) (pixel[i := HighByte color, i + 1 := LowByte color])
      else pixel)"
  by pat_completeness auto
termination
  by (relation "measure (\<lambda>(color, i, pixel). 256 - i)") (auto simp: MAX_VALUE_SIZE_def)

declare Fill_pixel.simps [simp del]

text \<open>
  The loop \<open>while (bytes_count - MAX_VALUE_SIZE > 0)\<close> of \<open>Fill\<close> and the send after it.
  \<open>bytes_count\<close> is \<open>int32_t\<close>; it is stored in the \<open>uint32_t\<close> field \<open>databytes\<close>.
\<close>

function Fill_loop :: "u8 list \<Rightarrow> int \<Rightarrow> trace" where
  "Fill_loop pixel bytes_count =
     (if bytes_count - MAX_VALUE_SIZE > 0
      then seq (WriteLCD \<lparr>cmd = SEND_PIXELS, databytes = word_of_int MAX_VALUE_SIZE, data = pixel\<rparr>)
               (Fill_loop pixel (bytes_count - MAX_VALUE_SIZE))
      else WriteLCD \<lparr>cmd = SEND_PIXELS, databytes = word_of_int bytes_count, data = pixel\<rparr>)"
  by pat_completeness auto
termination
  by (relation "measure (\<lambda>(pixel, bytes_count). nat bytes_count)") (auto simp: MAX_VALUE_SIZE_def)

declare Fill_loop.simps [simp del]

text \<open>
  \<open>Fill\<close>. The distances are \<open>int16_t\<close>: the difference of the coordinates is truncated to
  16 bits and read as signed. \<open>bytes_count\<close> is computed in \<open>int\<close> and stored in an
  \<open>int32_t\<close> (\<open>signed_take_bit 31\<close> is the value a 32-bit signed integer keeps). The
  buffer \<open>pixel\<close> is static; the first loop overwrites all of it.
\<close>

definition Fill :: "u16 \<Rightarrow> u16 \<Rightarrow> u16 \<Rightarrow> u16 \<Rightarrow> u16 \<Rightarrow> trace" where
  "Fill x0 y0 x1 y1 color =
     (let x_dist = x1 - x0;
          y_dist = y1 - y0;
          x_dist = (if x0 > x1 then - x_dist else x_dist);
          y_dist = (if y0 > y1 then - y_dist else y_dist);
          bytes_count = signed_take_bit 31 ((sint x_dist + 1) * (sint y_dist + 1) * 2);
          pixel = Fill_pixel color 0 (replicate 256 0)
      in seq (SetCursorPosition x0 y0 x1 y1)
           (seq (WriteLCD \<lparr>cmd = MEM_WRITE, databytes = 0, data = []\<rparr>)
                (Fill_loop pixel bytes_count)))"

definition ILI9341DrawPixel :: "u16 \<Rightarrow> u16 \<Rightarrow> u16 \<Rightarrow> trace" where
  "ILI9341DrawPixel x y color =
     seq (SetCursorPosition x y x y)
         (WriteLCD \<lparr>cmd = MEM_WRITE, databytes = 2, data = [HighByte color, LowByte color]\<rparr>)"

definition ILI9341Fill :: "orientation_properties_t \<Rightarrow> u16 \<Rightarrow> trace" where
  "ILI9341Fill s color = Fill 0 0 (width s) (height s) color"

subsection \<open>Lines and circles\<close>

text \<open>
  \<open>ILI9341DrawLine\<close> and \<open>ILI9341DrawCircle\<close> draw through calls of \<open>ILI9341DrawPixel\<close>
  and \<open>Fill\<close>. Their models return these calls in order; \<open>exec_calls\<close> is the trace.
\<close>

datatype draw_call =
    PixelCall u16 u16 u16
  | FillCall u16 u16 u16 u16 u16

fun exec_call :: "draw_call \<Rightarrow> trace" where
  "exec_call (PixelCall x y color) = ILI9341DrawPixel x y color"
| "exec_call (FillCall x0 y0 x1 y1 color) = Fill x0 y0 x1 y1 color"

fun exec_calls :: "draw_call list \<Rightarrow> trace" where
  "exec_calls [] = Inr []"
| "exec_calls (c # cs) = seq (exec_call c) (exec_calls cs)"

text \<open>
  The pixels a call addresses: \<open>ILI9341DrawPixel\<close> the pixel itself, \<open>Fill\<close> the window
  between its corners.
\<close>

fun call_pixels :: "draw_call \<Rightarrow> (u16 \<times> u16) set" where
  "call_pixels (PixelCall x y color) = {(x, y)}"
| "call_pixels (FillCall x0 y0 x1 y1 color) =
     {(x, y). min x0 x1 \<le> x \<and> x \<le> max x0 x1 \<and> min y0 y1 \<le> y \<and> y \<le> max y0 y1}"

definition drawn_pixels :: "draw_call list \<Rightarrow> (u16 \<times> u16) set" where
  "drawn_pixels cs = \<Union> (call_pixels ` set cs)"

definition LEFT :: u16 where "LEFT = - 1"
definition RIGHT :: u16 where "RIGHT = 1"
definition DOWN :: u16 where "DOWN = 1"
definition UP :: u16 where "UP = - 1"

text \<open>
  The \<open>while (1)\<close> loop of \<open>ILI9341DrawLine\<close>. The distances, the grow directions and
  the error are \<open>int16_t\<close>. A run that never reaches the \<open>break\<close> is \<open>None\<close>.
\<close>

partial_function (option) DrawLine_loop ::
  "u16 \<Rightarrow> u16 \<Rightarrow> u16 \<Rightarrow> u16 \<Rightarrow> u16 \<Rightarrow> u16 \<Rightarrow> u16 \<Rightarrow> u16 \<Rightarrow> u16 \<Rightarrow> u16 \<Rightarrow> draw_call list
     \<Rightarrow> draw_call list option"
where
  "DrawLine_loop color x_dist y_dist x_grow y_grow x1 y1 x0 y0 error calls =
     (let calls = calls @ [PixelCall x0 y0 color] in
      if x0 = x1 \<or> y0 = y1 then Some calls
      else
        let error_2 = error;
            (error, x0) = (if sint error_2 > - sint x_dist
                           then (error - y_dist, x0 + x_grow) else (error, x0));
            (error, y0) = (if sint error_2 < sint y_dist
                           then (error + x_dist, y0 + y_grow) else (error, y0))
        in DrawLine_loop color x_dist y_dist x_grow y_grow x1 y1 x0 y0 error calls)"

declare DrawLine_loop.simps [code]

text \<open>
  \<open>ILI9341DrawLine\<close>, reading the global \<open>lcd_orientation\<close>. \<open>x_dist / 2\<close> is C's
  division, which truncates towards zero.
\<close>

definition ILI9341DrawLine ::
  "orientation_properties_t \<Rightarrow> u16 \<Rightarrow> u16 \<Rightarrow> u16 \<Rightarrow> u16 \<Rightarrow> u16 \<Rightarrow> draw_call list option"
where
  "ILI9341DrawLine s x0 y0 x1 y1 color =
     (let x0 = (if x0 \<ge> width s then width s - 1 else x0);
          x1 = (if x1 \<ge> width s then width s - 1 else x1);
          y0 = (if y0 \<ge> height s then height s - 1 else y0);
          y1 = (if y1 \<ge> height s then height s - 1 else y1);
          x_dist = x1 - x0;
          y_dist = y1 - y0;
          (x_dist, x_grow) = (if x0 > x1 then (- x_dist, LEFT) else (x_dist, RIGHT));
          (y_dist, y_grow) = (if y0 > y1 then (- y_dist, UP) else (y_dist, DOWN))
      in if x_dist = 0 \<or> y_dist = 0 then Some [FillCall x0 y0 x1 y1 color]
         else
           let error = (if sint x_dist > sint y_dist
                        then word_of_int (sint x_dist sdiv 2)
                        else word_of_int (sint y_dist sdiv 2))
           in DrawLine_loop color x_dist y_dist x_grow y_grow x1 y1 x0 y0 error [])"

text \<open>
  The \<open>while (x < y)\<close> loop of \<open>ILI9341DrawCircle\<close>. All its variables and the centre
  are \<open>int16_t\<close>; \<open>ILI9341DrawPixel\<close> takes \<open>uint16_t\<close>, so the sums wrap to 16 bits.
\<close>

function DrawCircle_loop ::
  "u16 \<Rightarrow> u16 \<Rightarrow> u16 \<Rightarrow> u16 \<Rightarrow> u16 \<Rightarrow> u16 \<Rightarrow> u16 \<Rightarrow> u16 \<Rightarrow> draw_call list"
where
  "DrawCircle_loop x0 y0 color f ddF_x ddF_y x y =
     (if sint x < sint y then
        let (y, ddF_y, f) = (if 0 \<le> sint f then (y - 1, ddF_y + 2, f + (ddF_y + 2))
                             else (y, ddF_y, f));
            x = x + 1;
            ddF_x = ddF_x + 2;
            f = f + ddF_x
        in [PixelCall (x0 + x) (y0 + y) color,
            PixelCall (x0 - x) (y0 + y) color,
            PixelCall (x0 + x) (y0 - y) color,
            PixelCall (x0 - x) (y0 - y) color,
            PixelCall (x0 + y) (y0 + x) color,
            PixelCall (x0 - y) (y0 + x) color,
            PixelCall (x0 + y) (y0 - x) color,
            PixelCall (x0 - y) (y0 - x) color]
           @ DrawCircle_loop x0 y0 color f ddF_x ddF_y x y
      else [])"
  by pat_completeness auto

termination
proof (relation "measure (\<lambda>(x0, y0, color, f, ddF_x, ddF_y, x, y). nat (sint y - sint x))",
    goal_cases)
  case 1
  show ?case by simp
next
  case (2 x0 y0 color f ddF_x ddF_y x y p y' q ddF_y' f')
  have lt: "sint x < sint y" by (rule 2(1))
  have bx: "- (2 ^ 15) \<le> sint x" "sint x < 2 ^ 15"
    using sint_ge [of x] sint_lt [of x] by simp_all
  have bnd: "- (2 ^ 15) \<le> sint y" "sint y < 2 ^ 15"
    using sint_ge [of y] sint_lt [of y] by simp_all
  have sx: "sint (x + 1) = sint x + 1"
    using lt bx bnd by (simp add: sint_word_ariths signed_take_bit_int_eq_self_iff)
  have sy: "sint (y - 1) = sint y - 1"
    using lt bx bnd by (simp add: sint_word_ariths signed_take_bit_int_eq_self_iff)
  from 2 have "y' = y \<or> y' = y - 1" by (simp split: if_splits)
  with 2 lt sx sy show ?case by auto
qed

declare DrawCircle_loop.simps [simp del]

definition ILI9341DrawCircle :: "u16 \<Rightarrow> u16 \<Rightarrow> u16 \<Rightarrow> u16 \<Rightarrow> draw_call list" where
  "ILI9341DrawCircle x0 y0 r color =
     (let f = 1 - r;
          ddF_x = 1;
          ddF_y = - 2 * r;
          x = 0;
          y = r
      in [PixelCall x0 (y0 + r) color,
          PixelCall x0 (y0 - r) color,
          PixelCall (x0 + r) y0 color,
          PixelCall (x0 - r) y0 color]
         @ DrawCircle_loop x0 y0 color f ddF_x ddF_y x y)"

subsection \<open>Characters and strings\<close>

text \<open>
  Modelled from the spec: the declaration of \<open>Font_t\<close> is missing. The spec gives a
  glyph width, a glyph height and a sequence of 16-bit rows, the row \<open>i\<close> of a character
  \<open>c\<close> at index \<open>(c - ' ') * glyph_height + i\<close>. The loop counters \<open>i\<close>, \<open>j\<close>, \<open>k\<close> of
  \<open>ILI9341DrawChar\<close> are \<open>uint16_t\<close> and its \<open>bytes_count\<close> is \<open>int32_t\<close>; for glyphs of
  fewer than 256 rows and columns none of them wraps, and they are natural numbers and
  integers here.
\<close>

record Font_t =
  FontWidth :: nat
  FontHeight :: nat
  font_data :: "u16 list"

definition MSK_BIT16 :: int where "MSK_BIT16 = 0x8000"

text \<open>
  The inner loop of \<open>ILI9341DrawChar\<close> over the columns \<open>j\<close> of row \<open>i\<close>. The variables
  that the loops update are the chunk count \<open>k\<close>, \<open>bytes_count\<close>, the buffer \<open>pixel\<close>
  and the transport operations done so far.
\<close>

type_synonym DrawChar_vars = "nat \<times> int \<times> u8 list \<times> spi_event list"

function DrawChar_columns ::
  "Font_t \<Rightarrow> u16 \<Rightarrow> u16 \<Rightarrow> u16 \<Rightarrow> nat \<Rightarrow> nat \<Rightarrow> DrawChar_vars \<Rightarrow> fault + DrawChar_vars"
where
  "DrawChar_columns font foreground background char_row i j (k, bytes_count, pixel, sent) =
     (if j < FontWidth font then
        (case (if 2 * int j + int i * int (FontWidth font) * 2 - int k * MAX_VALUE_SIZE + 1
                    > MAX_VALUE_SIZE
               then (case WriteLCD \<lparr>cmd = SEND_PIXELS, databytes = word_of_int MAX_VALUE_SIZE,
                                    data = pixel\<rparr> of
                       Inl e \<Rightarrow> Inl e
                     | Inr evs \<Rightarrow> Inr (k + 1, bytes_count - MAX_VALUE_SIZE, sent @ evs))
               else Inr (k, bytes_count, sent)) of
           Inl e \<Rightarrow> Inl e
         | Inr (k, bytes_count, sent) \<Rightarrow>
             (let idx = 2 * int j + int i * int (FontWidth font) * 2 - int k * MAX_VALUE_SIZE;
                  c = (if uint char_row AND drop_bit j MSK_BIT16 \<noteq> 0
                       then foreground else background)
              in if 0 \<le> idx \<and> idx + 1 < MAX_VALUE_SIZE
                 then DrawChar_columns font foreground background char_row i (j + 1)
                        (k, bytes_count,
                         pixel[nat idx := HighByte c, nat idx + 1 := LowByte c], sent)
                 else Inl (BufferWriteOutOfBounds idx)))
      else Inr (k, bytes_count, pixel, sent))"
  by pat_completeness auto
termination
  by (relation "measure (\<lambda>(font, fg, bg, char_row, i, j, v). FontWidth font - j)") auto

declare DrawChar_columns.simps [simp del]

text \<open>
  The index \<open>(data - ' ') * font->FontHeight + i\<close> of row \<open>i\<close> of the character \<open>data\<close>,
  computed in \<open>int\<close> (\<open>char\<close> is unsigned on the ESP32 targets), and the read
  \<open>font->data[index]\<close>. An index outside the bitmap reads the memory \<open>around\<close> it, of which
  nothing is assumed.
\<close>

definition row_index :: "Font_t \<Rightarrow> u8 \<Rightarrow> nat \<Rightarrow> int" where
  "row_index font ch i = (uint ch - 32) * int (FontHeight font) + int i"

definition in_bitmap :: "Font_t \<Rightarrow> int \<Rightarrow> bool" where
  "in_bitmap font idx \<longleftrightarrow> 0 \<le> idx \<and> idx < int (length (font_data font))"

definition font_row :: "Font_t \<Rightarrow> (int \<Rightarrow> u16) \<Rightarrow> int \<Rightarrow> u16" where
  "font_row font around idx =
     (if in_bitmap font idx then font_data font ! nat idx else around idx)"

text \<open>The outer loop of \<open>ILI9341DrawChar\<close> over the rows \<open>i\<close>.\<close>

function DrawChar_rows ::
  "Font_t \<Rightarrow> (int \<Rightarrow> u16) \<Rightarrow> u8 \<Rightarrow> u16 \<Rightarrow> u16 \<Rightarrow> nat \<Rightarrow> DrawChar_vars
     \<Rightarrow> fault + DrawChar_vars"
where
  "DrawChar_rows font around ch foreground background i v =
     (if i < FontHeight font then
        (let char_row = font_row font around (row_index font ch i)
         in case DrawChar_columns font foreground background char_row i 0 v of
              Inl e \<Rightarrow> Inl e
            | Inr v' \<Rightarrow> DrawChar_rows font around ch foreground background (i + 1) v')
      else Inr v)"
  by pat_completeness auto
termination
  by (relation "measure (\<lambda>(font, around, ch, fg, bg, i, v). FontHeight font - i)") auto

declare DrawChar_rows.simps [simp del]

text \<open>
  \<open>ILI9341DrawChar\<close>. The buffer \<open>pixel\<close> is static. A chunk is sent when all its 256
  bytes have been written, and the last send takes the bytes written since, so the
  content left by an earlier call is never sent: the model starts from the zeroed buffer
  of program start.
\<close>

definition ILI9341DrawChar ::
  "orientation_properties_t \<Rightarrow> (int \<Rightarrow> u16) \<Rightarrow> u16 \<Rightarrow> u16 \<Rightarrow> u8 \<Rightarrow> Font_t \<Rightarrow> u16 \<Rightarrow> u16
     \<Rightarrow> trace"
where
  "ILI9341DrawChar s around x y ch font foreground background =
     (let lcd_x = x;
          lcd_y = y;
          (lcd_x, lcd_y) =
            (if uint lcd_x + int (FontWidth font) > uint (width s)
             then (0, lcd_y + of_nat (FontHeight font)) else (lcd_x, lcd_y));
          cursor = SetCursorPosition lcd_x lcd_y
                     (lcd_x + of_nat (FontWidth font) - 1) (lcd_y + of_nat (FontHeight font) - 1);
          bytes_count = int (FontHeight font) * int (FontWidth font) * 2;
          start = WriteLCD \<lparr>cmd = MEM_WRITE, databytes = 0, data = []\<rparr>
      in case DrawChar_rows font around ch foreground background 0
                (0, bytes_count, replicate 256 0, []) of
           Inl e \<Rightarrow> Inl e
         | Inr (k, bytes_count, pixel, sent) \<Rightarrow>
             seq cursor (seq start (seq (Inr sent)
               (WriteLCD \<lparr>cmd = SEND_PIXELS, databytes = word_of_int bytes_count,
                          data = pixel\<rparr>))))"

text \<open>
  The loop of \<open>ILI9341DrawString\<close> over a C string, given by its characters before the
  terminating NUL: reading at the end of the list reads the NUL. The loop returns the
  calls of \<open>ILI9341DrawChar\<close> it makes (position and character), and whether \<open>str\<close> was
  advanced past the terminator, where the model stops.
\<close>

definition peek :: "u8 list \<Rightarrow> u8" where
  "peek str = (case str of [] \<Rightarrow> 0 | c # _ \<Rightarrow> c)"

function DrawString_loop ::
  "Font_t \<Rightarrow> u16 \<Rightarrow> u16 \<Rightarrow> u16 \<Rightarrow> u8 list \<Rightarrow> (u16 \<times> u16 \<times> u8) list \<times> bool"
where
  "DrawString_loop font x lcd_x lcd_y str =
     (if peek str = 0 then ([], False)
      else
        let (lcd_x, lcd_y, str) =
              (if peek str = 10 then
                 (if peek (tl str) = 13
                  then (0, lcd_y + of_nat (FontHeight font + 1), tl (tl str))
                  else (x, lcd_y + of_nat (FontHeight font + 1), tl str))
               else if peek str = 13 then (lcd_x, lcd_y, tl str)
               else (lcd_x, lcd_y, str))
        in if str = [] then ([(lcd_x, lcd_y, 0)], True)
           else
             let (calls, overrun) =
                   DrawString_loop font x (lcd_x + of_nat (FontWidth font)) lcd_y (tl str)
             in ((lcd_x, lcd_y, hd str) # calls, overrun))"
  by pat_completeness auto
termination
  by (relation "measure (\<lambda>(font, x, lcd_x, lcd_y, str). length str)")
     (auto simp: peek_def split: list.splits if_splits)

declare DrawString_loop.simps [simp del]

text \<open>\<open>ILI9341DrawString\<close>: the trace of the calls of the loop, in order.\<close>

fun DrawString_calls ::
  "orientation_properties_t \<Rightarrow> (int \<Rightarrow> u16) \<Rightarrow> Font_t \<Rightarrow> u16 \<Rightarrow> u16
     \<Rightarrow> (u16 \<times> u16 \<times> u8) list \<Rightarrow> trace"
where
  "DrawString_calls s around font fg bg [] = Inr []"
| "DrawString_calls s around font fg bg ((lcd_x, lcd_y, ch) # cs) =
     seq (ILI9341DrawChar s around lcd_x lcd_y ch font fg bg)
         (DrawString_calls s around font fg bg cs)"

definition ILI9341DrawString ::
  "orientation_properties_t \<Rightarrow> (int \<Rightarrow> u16) \<Rightarrow> u16 \<Rightarrow> u16 \<Rightarrow> u8 list \<Rightarrow> Font_t \<Rightarrow> u16 \<Rightarrow> u16
     \<Rightarrow> trace"
where
  "ILI9341DrawString s around x y str font foreground background =
     DrawString_calls s around font foreground background
       (fst (DrawString_loop font x x y str))"

subsection \<open>What the panel receives\<close>

text \<open>
  The pixel stream of a trace: the data blocks that follow the memory-write command, as
  chunks (one per transfer) and as one sequence of bytes.
\<close>

fun data_blocks :: "spi_event list \<Rightarrow> u8 list list" where
  "data_blocks [] = []"
| "data_blocks (Command c # es) = data_blocks es"
| "data_blocks (Data bs # es) = bs # data_blocks es"

definition pixel_chunks :: "spi_event list \<Rightarrow> u8 list list" where
  "pixel_chunks evs = data_blocks (tl (dropWhile (\<lambda>e. e \<noteq> Command MEM_WRITE) evs))"

definition pixel_stream :: "spi_event list \<Rightarrow> u8 list" where
  "pixel_stream evs = concat (pixel_chunks evs)"

text \<open>
  The byte count that the spec gives for \<open>Fill\<close>, and the pixel stream of \<open>n\<close> pixels of
  one colour: high byte, low byte, \<open>n\<close> times.
\<close>

definition Fill_bytes :: "u16 \<Rightarrow> u16 \<Rightarrow> u16 \<Rightarrow> u16 \<Rightarrow> int" where
  "Fill_bytes x0 y0 x1 y1 = (\<bar>uint x1 - uint x0\<bar> + 1) * (\<bar>uint y1 - uint y0\<bar> + 1) * 2"

definition color_bytes :: "u16 \<Rightarrow> nat \<Rightarrow> u8 list" where
  "color_bytes color n = concat (replicate n [HighByte color, LowByte color])"

text \<open>
  Symmetry of a set of pixels under the eight reflections about \<open>(x0, y0)\<close> that map
  the octants of a circle onto each other, and the eight images of an offset.
\<close>

definition octant_symmetric :: "u16 \<Rightarrow> u16 \<Rightarrow> (u16 \<times> u16) set \<Rightarrow> bool" where
  "octant_symmetric x0 y0 S \<longleftrightarrow>
     (\<forall>a b. (x0 + a, y0 + b) \<in> S \<longrightarrow>
        (x0 - a, y0 + b) \<in> S \<and> (x0 + a, y0 - b) \<in> S \<and> (x0 - a, y0 - b) \<in> S \<and>
        (x0 + b, y0 + a) \<in> S \<and> (x0 - b, y0 + a) \<in> S \<and>
        (x0 + b, y0 - a) \<in> S \<and> (x0 - b, y0 - a) \<in> S)"

definition orbit :: "u16 \<Rightarrow> u16 \<Rightarrow> (u16 \<times> u16) set" where
  "orbit x y = {(x, y), (- x, y), (x, - y), (- x, - y), (y, x), (- y, x), (y, - x), (- y, - x)}"

text \<open>
  The state of the loops of \<open>ILI9341DrawChar\<close> after \<open>p\<close> pixels of a glyph of \<open>T\<close> bytes:
  the chunks sent so far are full, and \<open>bytes_count\<close> is what remains.
\<close>

definition DrawChar_inv :: "int \<Rightarrow> nat \<Rightarrow> DrawChar_vars \<Rightarrow> bool" where
  "DrawChar_inv T p v =
     (case v of (k, bytes_count, pixel, sent) \<Rightarrow>
        length pixel = 256 \<and> k = (2 * p - 2) div 256 \<and> bytes_count = T - 256 * int k \<and>
        sent = map Data (data_blocks sent) \<and> map length (data_blocks sent) = replicate k 256)"

text \<open>A font of 16 by 26 pixels with the 95 printable characters, all rows blank.\<close>

definition font_16x26 :: Font_t where
  "font_16x26 = \<lparr>FontWidth = 16, FontHeight = 26, font_data = replicate (95 * 26) 0\<rparr>"


text \<open>
  For the lines: a coordinate lies between two others, the distance of two coordinates,
  and the clamping of the spec (a coordinate at or beyond a dimension is pulled to the
  dimension minus 1).
\<close>

definition between :: "u16 \<Rightarrow> u16 \<Rightarrow> u16 \<Rightarrow> bool" where
  "between a b v \<longleftrightarrow> (a \<le> v \<and> v \<le> b) \<or> (b \<le> v \<and> v \<le> a)"

definition distance :: "u16 \<Rightarrow> u16 \<Rightarrow> nat" where
  "distance a b = (if a \<le> b then unat b - unat a else unat a - unat b)"

definition clamp_coordinate :: "u16 \<Rightarrow> u16 \<Rightarrow> u16" where
  "clamp_coordinate d v = (if v \<ge> d then d - 1 else v)"

section \<open>Bytes and the cursor window\<close>

lemma HighByte_uint: "uint (HighByte v) = uint v div 256"
proof -
  have "uint v < 65536" using uint_lt2p [of v] by simp
  then have "uint v div 256 < 256" by simp
  moreover have "0 \<le> uint v div 256" by (simp add: pos_imp_zdiv_nonneg_iff)
  ultimately have "take_bit 8 (uint v div 256) = uint v div 256"
    by (simp add: take_bit_int_eq_self)
  then show ?thesis
    by (simp add: HighByte_def unsigned_ucast_eq unsigned_drop_bit_eq drop_bit_eq_div uint_div)
qed

lemma LowByte_uint: "uint (LowByte v) = uint v mod 256"
proof -
  have "v AND 0xFF = take_bit 8 v"
    by (simp add: take_bit_eq_mask mask_eq_exp_minus_1)
  then show ?thesis
    by (simp add: LowByte_def unsigned_ucast_eq unsigned_take_bit_eq take_bit_eq_mod uint_mod)
qed

lemma SetCursorPosition_trace:
  "SetCursorPosition x0 y0 x1 y1 =
     Inr [Command COLUMN_ADDR_SET,
          Data [HighByte (min x0 x1), LowByte (min x0 x1),
                HighByte (max x0 x1), LowByte (max x0 x1)],
          Command PAGE_ADDR_SET,
          Data [HighByte (min y0 y1), LowByte (min y0 y1),
                HighByte (max y0 y1), LowByte (max y0 y1)]]"
  by (auto simp add: SetCursorPosition_def WriteLCD_def lcd_cmd_def lcd_data_def
      COLUMN_ADDR_SET_def PAGE_ADDR_SET_def min_def max_def)

text \<open>
  C4. For all corners, in either order, \<open>SetCursorPosition\<close> sends the column-address
  command with the bytes of the smaller and then of the larger column, and the
  row-address command with the bytes of the smaller and then of the larger row. The two
  bytes of a coordinate are its big-endian representation: the high byte first, and
  \<open>256 * high + low\<close> is the coordinate.
\<close>

theorem C4_SetCursorPosition_normalizes:
  "SetCursorPosition x0 y0 x1 y1 =
     Inr [Command COLUMN_ADDR_SET,
          Data [HighByte (min x0 x1), LowByte (min x0 x1),
                HighByte (max x0 x1), LowByte (max x0 x1)],
          Command PAGE_ADDR_SET,
          Data [HighByte (min y0 y1), LowByte (min y0 y1),
                HighByte (max y0 y1), LowByte (max y0 y1)]]
   \<and> SetCursorPosition x0 y0 x1 y1 = SetCursorPosition x1 y1 x0 y0
   \<and> SetCursorPosition x0 y0 x1 y1 = SetCursorPosition x1 y0 x0 y1
   \<and> uint v = 256 * uint (HighByte v) + uint (LowByte v)
   \<and> COLUMN_ADDR_SET = 0x2A \<and> PAGE_ADDR_SET = 0x2B"
  by (simp add: SetCursorPosition_trace HighByte_uint LowByte_uint min.commute max.commute
      COLUMN_ADDR_SET_def PAGE_ADDR_SET_def)

section \<open>Orientation\<close>

lemma Rotate_independent: "ILI9341Rotate t s = ILI9341Rotate t s'"
  by (cases t) simp_all

lemma Rotate_trace: "fst (ILI9341Rotate t s) = Inr [Command MEM_ACC_CTRL, Data [mem_acc t]]"
  by (cases t) (simp_all add: WriteLCD_def lcd_cmd_def lcd_data_def MEM_ACC_CTRL_def)

lemma rotations_traces:
  "fst (rotations ts s) = map (\<lambda>t. Inr [Command MEM_ACC_CTRL, Data [mem_acc t]]) ts"
  by (induction ts arbitrary: s) (simp_all add: split_beta Rotate_trace)

lemma rotations_last: "snd (rotations (ts @ [t]) s) = snd (ILI9341Rotate t s0)"
proof (induction ts arbitrary: s)
  case Nil
  show ?case using Rotate_independent [of t s s0] by (simp add: split_beta)
next
  case (Cons a ts)
  show ?case using Cons.IH [of "snd (ILI9341Rotate a s)"] by (simp add: split_beta)
qed

text \<open>
  C6. Start in any orientation \<open>t\<close> (the global as \<open>ILI9341Rotate t\<close> leaves it), rotate
  through the four orientations, or through any other sequence \<open>ts\<close>, and back to \<open>t\<close>:
  the stored width, height and orientation are those of the start, and the last
  memory-access-control byte sent is the byte of \<open>t\<close>. Each call sets these from its
  argument alone, whatever the global was before.
\<close>

theorem C6_rotate_round_trip:
  "snd (rotations ([ILI9341_Portrait_1, ILI9341_Portrait_2, ILI9341_Landscape_1,
                    ILI9341_Landscape_2] @ [t]) (snd (ILI9341Rotate t s)))
     = snd (ILI9341Rotate t s)
   \<and> snd (rotations (ts @ [t]) (snd (ILI9341Rotate t s))) = snd (ILI9341Rotate t s)
   \<and> last (fst (rotations (ts @ [t]) (snd (ILI9341Rotate t s)))) = fst (ILI9341Rotate t s)
   \<and> fst (ILI9341Rotate t s) = Inr [Command MEM_ACC_CTRL, Data [mem_acc t]]
   \<and> ILI9341Rotate t s = ILI9341Rotate t s'
   \<and> snd (ILI9341Rotate ILI9341_Portrait_1 s) = lcd_orientation"
proof -
  have a: "snd (rotations (us @ [t]) (snd (ILI9341Rotate t s))) = snd (ILI9341Rotate t s)" for us
    by (rule rotations_last)
  have b: "last (fst (rotations (ts @ [t]) (snd (ILI9341Rotate t s)))) = fst (ILI9341Rotate t s)"
    by (simp add: rotations_traces Rotate_trace)
  have c: "snd (ILI9341Rotate ILI9341_Portrait_1 s) = lcd_orientation"
    by (simp add: lcd_orientation_def)
  show ?thesis
    using a [of ts] a [of "[ILI9341_Portrait_1, ILI9341_Portrait_2, ILI9341_Landscape_1,
      ILI9341_Landscape_2]"] b c Rotate_trace [of t s] Rotate_independent [of t s s']
    by blast
qed

section \<open>Filling a rectangle\<close>

lemma Fill_pixel_inv:
  "length pixel = 256 \<Longrightarrow> even i \<Longrightarrow>
   length (Fill_pixel color i pixel) = 256 \<and>
   (\<forall>n<256. Fill_pixel color i pixel ! n =
      (if i \<le> n then (if even n then HighByte color else LowByte color) else pixel ! n))"
proof (induction color i pixel rule: Fill_pixel.induct)
  case (1 color i pixel)
  show ?case
  proof (cases "int i < MAX_VALUE_SIZE")
    case True
    let ?p = "pixel[i := HighByte color, i + 1 := LowByte color]"
    have len: "length ?p = 256" using "1.prems" by simp
    have ev: "even (i + 2)" using "1.prems" by simp
    note IH = "1.IH" [OF True len ev]
    have i: "i < 256" using True by (simp add: MAX_VALUE_SIZE_def)
    have eq: "Fill_pixel color i pixel = Fill_pixel color (i + 2) ?p"
      using True by (subst Fill_pixel.simps) simp
    show ?thesis
    proof (intro conjI allI impI)
      show "length (Fill_pixel color i pixel) = 256" using IH eq by simp
    next
      fix n :: nat assume n: "n < 256"
      have "Fill_pixel color i pixel ! n =
        (if i + 2 \<le> n then (if even n then HighByte color else LowByte color) else ?p ! n)"
        using IH n eq by simp
      also have "\<dots> = (if i \<le> n then (if even n then HighByte color else LowByte color) else pixel ! n)"
      proof -
        consider "n < i" | "n = i" | "n = i + 1" | "i + 2 \<le> n" by linarith
        then show ?thesis
        proof cases
          case 1 then show ?thesis by simp
        next
          case 2 then show ?thesis using "1.prems" i by simp
        next
          case 3 then show ?thesis using "1.prems" i n by simp
        next
          case 4 then show ?thesis by simp
        qed
      qed
      finally show "Fill_pixel color i pixel ! n =
        (if i \<le> n then (if even n then HighByte color else LowByte color) else pixel ! n)" .
    qed
  next
    case False
    then have "Fill_pixel color i pixel = pixel" by (subst Fill_pixel.simps) simp
    moreover have "256 \<le> i" using False by (simp add: MAX_VALUE_SIZE_def)
    ultimately show ?thesis using "1.prems" by simp
  qed
qed

lemma sint_word_of_int_32:
  "- (2 ^ 31) \<le> n \<Longrightarrow> n < 2 ^ 31 \<Longrightarrow> sint (word_of_int n :: 32 word) = n"
  by (simp add: sint_sbintrunc' signed_take_bit_int_eq_self)

lemma WriteLCD_pixels:
  assumes "0 < n" "n \<le> int (length buf)" "n < 2 ^ 31"
  shows "WriteLCD \<lparr>cmd = SEND_PIXELS, databytes = word_of_int n, data = buf\<rparr>
           = Inr [Data (take (nat n) buf)]"
proof -
  have s: "sint (word_of_int n :: 32 word) = n" using assms by (simp add: sint_word_of_int_32)
  have "(word_of_int n :: 32 word) \<noteq> 0"
  proof
    assume "(word_of_int n :: 32 word) = 0"
    then have "sint (word_of_int n :: 32 word) = 0" by simp
    then show False using s assms by simp
  qed
  then show ?thesis using assms s
    by (simp add: WriteLCD_def lcd_data_def SEND_PIXELS_def)
qed

lemma dist_sint:
  fixes x0 x1 :: "16 word"
  assumes "\<bar>uint x1 - uint x0\<bar> \<le> 32767"
  shows "sint (if x0 > x1 then - (x1 - x0) else x1 - x0) = \<bar>uint x1 - uint x0\<bar>"
proof (cases "x0 > x1")
  case True
  then have lt: "uint x1 < uint x0" by (simp add: word_less_def)
  then have u: "uint (x0 - x1) = uint x0 - uint x1"
    using uint_sub_lem [where x = x0 and y = x1] by simp
  have "sint (x0 - x1) = uint (x0 - x1)"
    using assms lt u by (simp add: sint_uint signed_take_bit_int_eq_self)
  then show ?thesis using True u lt by simp
next
  case False
  then have le: "uint x0 \<le> uint x1" by (simp add: word_less_def)
  then have u: "uint (x1 - x0) = uint x1 - uint x0"
    using uint_sub_lem [where x = x1 and y = x0] by simp
  have "sint (x1 - x0) = uint (x1 - x0)"
    using assms le u by (simp add: sint_uint signed_take_bit_int_eq_self)
  then show ?thesis using False u le by simp
qed


lemma Fill_loop_trace:
  "length pixel = 256 \<Longrightarrow> 0 < n \<Longrightarrow> n < 2 ^ 31 \<Longrightarrow>
   Fill_loop pixel n =
     Inr (replicate (nat ((n - 1) div 256)) (Data pixel)
          @ [Data (take (nat (n - 256 * ((n - 1) div 256))) pixel)])"
proof (induction pixel n rule: Fill_loop.induct)
  case (1 pixel n)
  show ?case
  proof (cases "n - MAX_VALUE_SIZE > 0")
    case True
    then have big: "256 < n" by (simp add: MAX_VALUE_SIZE_def)
    have IH: "Fill_loop pixel (n - 256) =
      Inr (replicate (nat ((n - 256 - 1) div 256)) (Data pixel)
          @ [Data (take (nat (n - 256 - 256 * ((n - 256 - 1) div 256))) pixel)])"
      using "1.IH" [OF True] "1.prems" big by (simp add: MAX_VALUE_SIZE_def)
    have "(n - 256 - 1 + 256) div 256 = (n - 256 - 1) div 256 + 1"
      by (rule div_add_self2) simp
    then have d: "(n - 1) div 256 = (n - 256 - 1) div 256 + 1" by simp
    have nn: "0 \<le> (n - 256 - 1) div 256" using big by (simp add: pos_imp_zdiv_nonneg_iff)
    have chunk: "WriteLCD \<lparr>cmd = SEND_PIXELS, databytes = word_of_int MAX_VALUE_SIZE, data = pixel\<rparr>
       = Inr [Data pixel]"
      using WriteLCD_pixels [of 256 pixel] "1.prems" by (simp add: MAX_VALUE_SIZE_def)
    have step: "Fill_loop pixel n = seq (Inr [Data pixel]) (Fill_loop pixel (n - 256))"
      using True chunk by (subst Fill_loop.simps) (simp add: MAX_VALUE_SIZE_def)
    have r: "nat ((n - 1) div 256) = Suc (nat ((n - 256 - 1) div 256))"
      using d nn by (simp add: nat_add_distrib)
    have t: "n - 256 * ((n - 1) div 256) = n - 256 - 256 * ((n - 256 - 1) div 256)"
      using d by simp
    show ?thesis unfolding step IH r t by simp
  next
    case False
    then have small: "n \<le> 256" by (simp add: MAX_VALUE_SIZE_def)
    then have z: "(n - 1) div 256 = 0" using "1.prems" by simp
    have "Fill_loop pixel n = WriteLCD \<lparr>cmd = SEND_PIXELS, databytes = word_of_int n, data = pixel\<rparr>"
      using False by (subst Fill_loop.simps) simp
    then show ?thesis using WriteLCD_pixels [of n pixel] "1.prems" small z by simp
  qed
qed

lemma length_color_bytes: "length (color_bytes color n) = 2 * n"
  by (induction n) (simp_all add: color_bytes_def)

lemma color_bytes_nth:
  "m < 2 * n \<Longrightarrow> color_bytes color n ! m = (if even m then HighByte color else LowByte color)"
proof (induction n arbitrary: m)
  case 0
  then show ?case by simp
next
  case (Suc n)
  have c: "color_bytes color (Suc n) = HighByte color # LowByte color # color_bytes color n"
    by (simp add: color_bytes_def)
  consider "m = 0" | "m = 1" | k where "m = Suc (Suc k)"
    by (metis One_nat_def not0_implies_Suc)
  then show ?case
  proof cases
    case 1 then show ?thesis by (simp add: c)
  next
    case 2 then show ?thesis by (simp add: c)
  next
    case 3
    then have "k < 2 * n" using Suc.prems by simp
    then show ?thesis using Suc.IH [of k] 3 by (simp add: c)
  qed
qed

lemma Fill_pixel_buffer: "Fill_pixel color 0 (replicate 256 0) = color_bytes color 128"
proof (rule nth_equalityI)
  show "length (Fill_pixel color 0 (replicate 256 0)) = length (color_bytes color 128)"
    using Fill_pixel_inv [of "replicate 256 0" 0 color] by (simp add: length_color_bytes)
next
  fix i assume "i < length (Fill_pixel color 0 (replicate 256 0))"
  then have i: "i < 256" using Fill_pixel_inv [of "replicate 256 0" 0 color] by simp
  then show "Fill_pixel color 0 (replicate 256 0) ! i = color_bytes color 128 ! i"
    using Fill_pixel_inv [of "replicate 256 0" 0 color] by (simp add: color_bytes_nth)
qed

lemma Fill_trace:
  assumes dx: "\<bar>uint x1 - uint x0\<bar> \<le> 32767"
    and dy: "\<bar>uint y1 - uint y0\<bar> \<le> 32767"
    and t: "Fill_bytes x0 y0 x1 y1 < 2 ^ 31"
  shows "Fill x0 y0 x1 y1 color =
     Inr ([Command COLUMN_ADDR_SET,
           Data [HighByte (min x0 x1), LowByte (min x0 x1),
                 HighByte (max x0 x1), LowByte (max x0 x1)],
           Command PAGE_ADDR_SET,
           Data [HighByte (min y0 y1), LowByte (min y0 y1),
                 HighByte (max y0 y1), LowByte (max y0 y1)],
           Command MEM_WRITE]
          @ replicate (nat ((Fill_bytes x0 y0 x1 y1 - 1) div 256)) (Data (color_bytes color 128))
          @ [Data (take (nat (Fill_bytes x0 y0 x1 y1
                              - 256 * ((Fill_bytes x0 y0 x1 y1 - 1) div 256)))
                     (color_bytes color 128))])"
proof -
  let ?T = "Fill_bytes x0 y0 x1 y1"
  have pos: "0 < ?T" by (simp add: Fill_bytes_def zero_less_mult_iff)
  have sx: "sint (if x0 > x1 then - (x1 - x0) else x1 - x0) = \<bar>uint x1 - uint x0\<bar>"
    by (rule dist_sint [OF dx])
  have sy: "sint (if y0 > y1 then - (y1 - y0) else y1 - y0) = \<bar>uint y1 - uint y0\<bar>"
    by (rule dist_sint [OF dy])
  have bc: "signed_take_bit 31 ((sint (if x0 > x1 then - (x1 - x0) else x1 - x0) + 1)
             * (sint (if y0 > y1 then - (y1 - y0) else y1 - y0) + 1) * 2) = ?T"
  proof -
    have "signed_take_bit 31 ?T = ?T"
      using pos t by (intro signed_take_bit_int_eq_self) simp_all
    then show ?thesis unfolding sx sy by (simp add: Fill_bytes_def)
  qed
  have w: "WriteLCD \<lparr>cmd = MEM_WRITE, databytes = 0, data = []\<rparr> = Inr [Command MEM_WRITE]"
    by (simp add: WriteLCD_def lcd_cmd_def MEM_WRITE_def)
  have l: "Fill_loop (color_bytes color 128) ?T =
     Inr (replicate (nat ((?T - 1) div 256)) (Data (color_bytes color 128))
          @ [Data (take (nat (?T - 256 * ((?T - 1) div 256))) (color_bytes color 128))])"
    by (rule Fill_loop_trace) (use pos t in \<open>simp_all add: length_color_bytes\<close>)
  show ?thesis
    unfolding Fill_def Let_def bc Fill_pixel_buffer SetCursorPosition_trace w l by simp
qed

lemma data_blocks_chunks:
  "data_blocks (replicate n (Data buf) @ [Data r]) = replicate n buf @ [r]"
  by (induction n) simp_all

lemma pixel_chunks_Fill:
  "pixel_chunks ([Command COLUMN_ADDR_SET, Data a, Command PAGE_ADDR_SET, Data b,
                  Command MEM_WRITE] @ replicate n (Data buf) @ [Data r])
     = replicate n buf @ [r]"
  by (simp add: pixel_chunks_def data_blocks_chunks COLUMN_ADDR_SET_def PAGE_ADDR_SET_def
      MEM_WRITE_def)

lemma color_bytes_add: "color_bytes color a @ color_bytes color b = color_bytes color (a + b)"
  by (simp add: color_bytes_def replicate_add)

lemma concat_color_bytes:
  "concat (replicate n (color_bytes color m)) = color_bytes color (n * m)"
  by (induction n) (simp_all add: color_bytes_add, simp add: color_bytes_def)

lemma take_color_bytes:
  "k \<le> m \<Longrightarrow> take (2 * k) (color_bytes color m) = color_bytes color k"
proof -
  assume "k \<le> m"
  then obtain d where m: "m = k + d" using le_Suc_ex by blast
  have "color_bytes color m = color_bytes color k @ color_bytes color d"
    by (simp add: m color_bytes_add)
  then show ?thesis by (simp add: length_color_bytes)
qed

text \<open>Chunk arithmetic: \<open>n\<close> full chunks and a rest \<open>r\<close> between 1 and 256.\<close>

lemma chunk_arith:
  fixes T :: int
  assumes "0 < T" and n_def: "n = (T - 1) div 256" and r_def: "r = T - 256 * ((T - 1) div 256)"
  shows "0 \<le> n" "0 < r" "r \<le> 256" "T = 256 * n + r"
    "T mod 256 = 0 \<Longrightarrow> n + 1 = T div 256 \<and> r = 256"
    "T mod 256 \<noteq> 0 \<Longrightarrow> n = T div 256 \<and> r = T mod 256"
proof -
  have a: "T - 1 = 256 * ((T - 1) div 256) + (T - 1) mod 256" by simp
  have b: "0 \<le> (T - 1) mod 256" "(T - 1) mod 256 < 256" by simp_all
  show "0 \<le> n" using assms by (simp add: n_def pos_imp_zdiv_nonneg_iff)
  show "0 < r" "r \<le> 256" using a b unfolding r_def by linarith+
  show "T = 256 * n + r" by (simp add: n_def r_def)
  define q where "q = T div 256"
  define m where "m = T mod 256"
  have c: "T = 256 * q + m" by (simp add: q_def m_def)
  have d: "0 \<le> m" "m < 256" by (simp_all add: m_def)
  have e1: "(256 * (q - 1) + 255) div 256 = q - 1" by simp
  have e2: "0 \<le> k \<Longrightarrow> k < 256 \<Longrightarrow> (256 * q + k) div 256 = q" for k by simp
  { assume z: "T mod 256 = 0"
    then have "m = 0" by (simp add: m_def)
    then have "T - 1 = 256 * (q - 1) + 255" using c by simp
    then have "(T - 1) div 256 = q - 1" using e1 by simp
    then show "n + 1 = T div 256 \<and> r = 256"
      using \<open>m = 0\<close> c unfolding n_def r_def q_def [symmetric] by simp }
  { assume nz: "T mod 256 \<noteq> 0"
    then have "m \<noteq> 0" by (simp add: m_def)
    then have "0 \<le> m - 1" "m - 1 < 256" using d by simp_all
    then have "(256 * q + (m - 1)) div 256 = q" by (rule e2)
    moreover have "T - 1 = 256 * q + (m - 1)" using c by simp
    ultimately have "(T - 1) div 256 = q" by simp
    then show "n = T div 256 \<and> r = T mod 256"
      using c unfolding n_def r_def q_def [symmetric] m_def [symmetric] by simp }
qed

lemma Fill_bytes_even: "even (Fill_bytes x0 y0 x1 y1)"
  by (simp add: Fill_bytes_def)

lemma Fill_result:
  assumes dx: "\<bar>uint x1 - uint x0\<bar> \<le> 32767"
    and dy: "\<bar>uint y1 - uint y0\<bar> \<le> 32767"
    and t: "Fill_bytes x0 y0 x1 y1 < 2 ^ 31"
  defines "T \<equiv> Fill_bytes x0 y0 x1 y1"
  shows "\<exists>evs. Fill x0 y0 x1 y1 color = Inr evs
     \<and> take 5 evs =
         [Command COLUMN_ADDR_SET,
           Data [HighByte (min x0 x1), LowByte (min x0 x1),
                 HighByte (max x0 x1), LowByte (max x0 x1)],
           Command PAGE_ADDR_SET,
           Data [HighByte (min y0 y1), LowByte (min y0 y1),
                 HighByte (max y0 y1), LowByte (max y0 y1)],
           Command MEM_WRITE]
     \<and> pixel_chunks evs =
         replicate (nat ((T - 1) div 256)) (color_bytes color 128)
         @ [take (nat (T - 256 * ((T - 1) div 256))) (color_bytes color 128)]
     \<and> pixel_stream evs = color_bytes color (nat T div 2)
     \<and> int (length (pixel_stream evs)) = T"
proof -
  define n where "n = (T - 1) div 256"
  define r where "r = T - 256 * ((T - 1) div 256)"
  have pos: "0 < T" by (simp add: T_def Fill_bytes_def zero_less_mult_iff)
  note ar = chunk_arith [OF pos n_def r_def]
  have "even T" unfolding T_def by (rule Fill_bytes_even)
  then have "even (256 * n + r)" by (subst (asm) ar(4))
  then have ev: "even r" by simp
  then obtain h where h: "r = 2 * h" by (elim evenE)
  then have hb: "0 \<le> h" "h \<le> 128" using ar(2,3) by simp_all
  have tk: "take (nat r) (color_bytes color 128) = color_bytes color (nat h)"
  proof -
    have "nat r = 2 * nat h" using h hb by (simp add: nat_mult_distrib)
    moreover have "nat h \<le> 128" using hb by simp
    ultimately show ?thesis by (simp add: take_color_bytes)
  qed
  have half: "nat T div 2 = nat n * 128 + nat h"
  proof -
    have "T = 2 * (128 * n + h)" using ar(4) h by simp
    then have "nat T = 2 * nat (128 * n + h)" using ar(1) hb by (simp add: nat_mult_distrib)
    then have "nat T div 2 = nat (128 * n + h)" by simp
    also have "\<dots> = nat n * 128 + nat h" using ar(1) hb by (simp add: nat_add_distrib nat_mult_distrib)
    finally show ?thesis .
  qed
  let ?evs = "[Command COLUMN_ADDR_SET,
           Data [HighByte (min x0 x1), LowByte (min x0 x1),
                 HighByte (max x0 x1), LowByte (max x0 x1)],
           Command PAGE_ADDR_SET,
           Data [HighByte (min y0 y1), LowByte (min y0 y1),
                 HighByte (max y0 y1), LowByte (max y0 y1)],
           Command MEM_WRITE]
          @ replicate (nat n) (Data (color_bytes color 128))
          @ [Data (take (nat r) (color_bytes color 128))]"
  have f: "Fill x0 y0 x1 y1 color = Inr ?evs"
    using Fill_trace [OF dx dy t, of color] by (simp add: T_def n_def r_def)
  have ch: "pixel_chunks ?evs =
      replicate (nat n) (color_bytes color 128) @ [take (nat r) (color_bytes color 128)]"
    by (rule pixel_chunks_Fill)
  have st: "pixel_stream ?evs = color_bytes color (nat T div 2)"
  proof -
    have "pixel_stream ?evs =
        concat (replicate (nat n) (color_bytes color 128) @ [take (nat r) (color_bytes color 128)])"
      by (simp only: pixel_stream_def ch)
    also have "\<dots> = color_bytes color (nat n * 128 + nat h)"
      by (simp add: tk concat_color_bytes color_bytes_add)
    finally show ?thesis by (simp only: half)
  qed
  have len: "int (length (pixel_stream ?evs)) = T"
  proof -
    have "int (2 * (nat n * 128 + nat h)) = 256 * n + r" using ar(1) hb h by simp
    then have "int (2 * (nat n * 128 + nat h)) = T" by (simp only: ar(4) [symmetric])
    then show ?thesis by (simp only: st half length_color_bytes)
  qed
  have pre: "take 5 ?evs =
         [Command COLUMN_ADDR_SET,
           Data [HighByte (min x0 x1), LowByte (min x0 x1),
                 HighByte (max x0 x1), LowByte (max x0 x1)],
           Command PAGE_ADDR_SET,
           Data [HighByte (min y0 y1), LowByte (min y0 y1),
                 HighByte (max y0 y1), LowByte (max y0 y1)],
           Command MEM_WRITE]"
    by simp
  from f pre ch st len show ?thesis unfolding n_def r_def by blast
qed

text \<open>
  C1, as amended. For every call of \<open>Fill\<close> whose corner distances \<open>|x1 - x0|\<close> and
  \<open>|y1 - y0|\<close> are at most 32767 (the range of the \<open>int16_t\<close> distances) and whose byte
  count is below \<open>2^31\<close>, the pixel stream that follows the memory-write command has
  exactly \<open>(|x1 - x0| + 1) * (|y1 - y0| + 1) * 2\<close> bytes, the colour repeated high byte
  first. The buffer is filled once: every full chunk is that one buffer, the last chunk
  a prefix of it.
\<close>

theorem C1_Fill_byte_count:
  assumes "\<bar>uint x1 - uint x0\<bar> \<le> 32767"
    and "\<bar>uint y1 - uint y0\<bar> \<le> 32767"
    and "Fill_bytes x0 y0 x1 y1 < 2 ^ 31"
  shows "\<exists>evs. Fill x0 y0 x1 y1 color = Inr evs
     \<and> int (length (pixel_stream evs)) = (\<bar>uint x1 - uint x0\<bar> + 1) * (\<bar>uint y1 - uint y0\<bar> + 1) * 2
     \<and> pixel_stream evs = color_bytes color (nat (Fill_bytes x0 y0 x1 y1) div 2)
     \<and> pixel_chunks evs =
         replicate (nat ((Fill_bytes x0 y0 x1 y1 - 1) div 256))
           (Fill_pixel color 0 (replicate 256 0))
         @ [take (nat (Fill_bytes x0 y0 x1 y1 - 256 * ((Fill_bytes x0 y0 x1 y1 - 1) div 256)))
             (Fill_pixel color 0 (replicate 256 0))]
     \<and> Fill_pixel color 0 (replicate 256 0) = color_bytes color 128"
proof -
  from Fill_result [OF assms, of color] obtain evs where
    evs: "Fill x0 y0 x1 y1 color = Inr evs"
      "pixel_chunks evs =
         replicate (nat ((Fill_bytes x0 y0 x1 y1 - 1) div 256)) (color_bytes color 128)
         @ [take (nat (Fill_bytes x0 y0 x1 y1 - 256 * ((Fill_bytes x0 y0 x1 y1 - 1) div 256)))
             (color_bytes color 128)]"
      "pixel_stream evs = color_bytes color (nat (Fill_bytes x0 y0 x1 y1) div 2)"
      "int (length (pixel_stream evs)) = Fill_bytes x0 y0 x1 y1"
    by blast
  have "int (length (pixel_stream evs))
      = (\<bar>uint x1 - uint x0\<bar> + 1) * (\<bar>uint y1 - uint y0\<bar> + 1) * 2"
    using evs(4) by (simp only: Fill_bytes_def)
  with evs(1,2,3) show ?thesis
    unfolding Fill_pixel_buffer by blast
qed

theorem C1_Fill_byte_count_witness:
  "\<exists>evs. Fill 0 0 239 319 0xF800 = Inr evs
     \<and> int (length (pixel_stream evs)) = 153600
     \<and> pixel_stream evs = color_bytes 0xF800 76800"
proof -
  have b: "Fill_bytes 0 0 239 319 = 153600" by (simp add: Fill_bytes_def)
  have h1: "\<bar>uint (239 :: u16) - uint (0 :: u16)\<bar> \<le> 32767" by simp
  have h2: "\<bar>uint (319 :: u16) - uint (0 :: u16)\<bar> \<le> 32767" by simp
  have h3: "Fill_bytes 0 0 239 319 < 2 ^ 31" by (simp add: b)
  from C1_Fill_byte_count [OF h1 h2 h3, of "0xF800"] obtain evs where
    "Fill 0 0 239 319 0xF800 = Inr evs"
    "int (length (pixel_stream evs))
       = (\<bar>uint (239 :: u16) - uint (0 :: u16)\<bar> + 1) * (\<bar>uint (319 :: u16) - uint (0 :: u16)\<bar> + 1) * 2"
    "pixel_stream evs = color_bytes 0xF800 (nat (Fill_bytes 0 0 239 319) div 2)"
    by blast
  then have "Fill 0 0 239 319 0xF800 = Inr evs \<and> int (length (pixel_stream evs)) = 153600
     \<and> pixel_stream evs = color_bytes 0xF800 76800"
    by (simp add: b)
  then show ?thesis by blast
qed

text \<open>
  C1 as stated fails: for the corners \<open>(0, 0)\<close> and \<open>(0x8000, 0)\<close> the \<open>int16_t\<close> distance is
  \<open>-32768\<close>, \<open>bytes_count\<close> is \<open>-65534\<close>, and \<open>lcd_data\<close> is asked for that many bytes.
\<close>

theorem C1_counterexample:
  "\<not> (\<exists>evs. Fill 0 0 0x8000 0 0xF800 = Inr evs
        \<and> int (length (pixel_stream evs)) = (\<bar>uint (0x8000 :: u16) - uint (0 :: u16)\<bar> + 1) * (\<bar>uint (0 :: u16) - uint (0 :: u16)\<bar> + 1) * 2)"
proof -
  have "Fill 0 0 0x8000 0 0xF800 = Inl (TransferOutOfBuffer (- 65534))"
    unfolding Fill_def Let_def SetCursorPosition_trace Fill_pixel_buffer
    by (subst Fill_loop.simps)
       (simp add: WriteLCD_def lcd_cmd_def lcd_data_def MAX_VALUE_SIZE_def MEM_WRITE_def
         SEND_PIXELS_def length_color_bytes)
  then show ?thesis by simp
qed

text \<open>
  C2, as amended. For every rectangle whose corner distances are at most 32767 and whose
  byte count \<open>T = W * H * 2\<close> is below \<open>2^31\<close>, the pixel stream of \<open>Fill\<close> is sent as
  \<open>T div 256\<close> transfers of 256 bytes, followed by one transfer of \<open>T mod 256\<close> bytes when
  that is not 0. No transfer is empty: when 256 divides \<open>T\<close> the send after the loop
  carries the last 256 bytes. A send of 0 bytes would put nothing on the bus.
\<close>

theorem C2_Fill_chunks:
  assumes "\<bar>uint x1 - uint x0\<bar> \<le> 32767"
    and "\<bar>uint y1 - uint y0\<bar> \<le> 32767"
    and "Fill_bytes x0 y0 x1 y1 < 2 ^ 31"
  shows "\<exists>evs. Fill x0 y0 x1 y1 color = Inr evs
     \<and> map length (pixel_chunks evs) =
         replicate (nat (Fill_bytes x0 y0 x1 y1 div 256)) 256
         @ (if Fill_bytes x0 y0 x1 y1 mod 256 = 0 then []
            else [nat (Fill_bytes x0 y0 x1 y1 mod 256)])
     \<and> [] \<notin> set (pixel_chunks evs)
     \<and> Fill_bytes x0 y0 x1 y1 = (\<bar>uint x1 - uint x0\<bar> + 1) * (\<bar>uint y1 - uint y0\<bar> + 1) * 2
     \<and> WriteLCD \<lparr>cmd = SEND_PIXELS, databytes = 0, data = buf\<rparr> = Inr []"
proof -
  define T where "T = Fill_bytes x0 y0 x1 y1"
  define n where "n = (T - 1) div 256"
  define r where "r = T - 256 * ((T - 1) div 256)"
  have pos: "0 < T" by (simp add: T_def Fill_bytes_def zero_less_mult_iff)
  note ar = chunk_arith [OF pos n_def r_def]
  from Fill_result [OF assms, of color] obtain evs where
    evs: "Fill x0 y0 x1 y1 color = Inr evs"
      "pixel_chunks evs =
         replicate (nat n) (color_bytes color 128) @ [take (nat r) (color_bytes color 128)]"
    unfolding T_def n_def r_def by blast
  have lens: "map length (pixel_chunks evs) = replicate (nat n) 256 @ [nat r]"
    using ar(2,3) by (simp add: evs(2) length_color_bytes map_replicate_const)
  have sizes: "replicate (nat n) 256 @ [nat r] =
      replicate (nat (T div 256)) 256 @ (if T mod 256 = 0 then [] else [nat (T mod 256)])"
  proof (cases "T mod 256 = 0")
    case True
    from ar(5) [OF True] have e: "T div 256 = n + 1" "r = 256" by simp_all
    have "nat (T div 256) = Suc (nat n)" using e(1) ar(1) by simp
    then show ?thesis using True e(2) by (simp add: replicate_append_same)
  next
    case False
    from ar(6) [OF False] show ?thesis using False by simp
  qed
  have ne: "[] \<notin> set (pixel_chunks evs)"
    using ar(2,3) by (auto simp add: evs(2) length_color_bytes color_bytes_def)
  have empty: "WriteLCD \<lparr>cmd = SEND_PIXELS, databytes = 0, data = buf\<rparr> = Inr []"
    by (simp add: WriteLCD_def SEND_PIXELS_def)
  have "Fill x0 y0 x1 y1 color = Inr evs
     \<and> map length (pixel_chunks evs) =
         replicate (nat (Fill_bytes x0 y0 x1 y1 div 256)) 256
         @ (if Fill_bytes x0 y0 x1 y1 mod 256 = 0 then []
            else [nat (Fill_bytes x0 y0 x1 y1 mod 256)])
     \<and> [] \<notin> set (pixel_chunks evs)
     \<and> Fill_bytes x0 y0 x1 y1 = (\<bar>uint x1 - uint x0\<bar> + 1) * (\<bar>uint y1 - uint y0\<bar> + 1) * 2"
    using evs(1) lens sizes ne unfolding T_def Fill_bytes_def by auto
  with empty show ?thesis by blast
qed


theorem C2_Fill_chunks_witness:
  "\<exists>evs. Fill 0 0 15 7 0xF800 = Inr evs
     \<and> map length (pixel_chunks evs) = [256]
     \<and> [] \<notin> set (pixel_chunks evs)"
proof -
  have b: "Fill_bytes 0 0 15 7 = 256" by (simp add: Fill_bytes_def)
  have h1: "\<bar>uint (15 :: u16) - uint (0 :: u16)\<bar> \<le> 32767" by simp
  have h2: "\<bar>uint (7 :: u16) - uint (0 :: u16)\<bar> \<le> 32767" by simp
  have h3: "Fill_bytes 0 0 15 7 < 2 ^ 31" by (simp add: b)
  from C2_Fill_chunks [OF h1 h2 h3, of "0xF800"] obtain evs where
    "Fill 0 0 15 7 0xF800 = Inr evs"
    "map length (pixel_chunks evs) =
         replicate (nat (Fill_bytes 0 0 15 7 div 256)) 256
         @ (if Fill_bytes 0 0 15 7 mod 256 = 0 then []
            else [nat (Fill_bytes 0 0 15 7 mod 256)])"
    "[] \<notin> set (pixel_chunks evs)"
    by blast
  then have "Fill 0 0 15 7 0xF800 = Inr evs \<and> map length (pixel_chunks evs) = [256]
     \<and> [] \<notin> set (pixel_chunks evs)"
    by (simp add: b)
  then show ?thesis by (rule exI [of _ evs])
qed

text \<open>
  C2 as stated fails: a rectangle one pixel wide and 40001 pixels high has the \<open>int16_t\<close>
  distance \<open>-25536\<close>, and no chunk is sent.
\<close>

theorem C2_counterexample:
  "\<not> (\<exists>evs. Fill 0 0 0 40000 0xF800 = Inr evs
        \<and> map length (pixel_chunks evs) = replicate 312 256 @ [130])
   \<and> (\<bar>uint (0 :: u16) - uint (0 :: u16)\<bar> + 1) * (\<bar>uint (40000 :: u16) - uint (0 :: u16)\<bar> + 1) * 2
       = (312 * 256 + 130 :: int)"
proof -
  have "Fill 0 0 0 40000 0xF800 = Inl (TransferOutOfBuffer (- 51070))"
    unfolding Fill_def Let_def SetCursorPosition_trace Fill_pixel_buffer
    by (subst Fill_loop.simps)
       (simp add: WriteLCD_def lcd_cmd_def lcd_data_def MAX_VALUE_SIZE_def MEM_WRITE_def
         SEND_PIXELS_def length_color_bytes)
  then show ?thesis by simp
qed

lemma Rotate_dims:
  "(width (snd (ILI9341Rotate t s)) = 240 \<and> height (snd (ILI9341Rotate t s)) = 320)
   \<or> (width (snd (ILI9341Rotate t s)) = 320 \<and> height (snd (ILI9341Rotate t s)) = 240)"
  by (cases t) (simp_all add: ILI9341_WIDTH_def ILI9341_HEIGHT_def)

text \<open>
  C9. In every orientation, \<open>ILI9341Fill\<close> calls \<open>Fill\<close> with the far corner
  \<open>(width, height)\<close>: the window it sets ends at column \<open>width\<close> and row \<open>height\<close>, one
  beyond the last column \<open>width - 1\<close> and the last row \<open>height - 1\<close>, and it sends
  \<open>(width + 1) * (height + 1) * 2\<close> bytes of pixels: 154722 on the 240 by 320 panel,
  whose pixels take \<open>width * height * 2 = 153600\<close> bytes.
\<close>

theorem C9_ILI9341Fill_one_beyond:
  "\<exists>evs. ILI9341Fill (snd (ILI9341Rotate t s)) color = Inr evs
     \<and> ILI9341Fill (snd (ILI9341Rotate t s)) color
         = Fill 0 0 (width (snd (ILI9341Rotate t s))) (height (snd (ILI9341Rotate t s))) color
     \<and> take 5 evs =
         [Command COLUMN_ADDR_SET,
          Data [0, 0, HighByte (width (snd (ILI9341Rotate t s))),
                LowByte (width (snd (ILI9341Rotate t s)))],
          Command PAGE_ADDR_SET,
          Data [0, 0, HighByte (height (snd (ILI9341Rotate t s))),
                LowByte (height (snd (ILI9341Rotate t s)))],
          Command MEM_WRITE]
     \<and> int (length (pixel_stream evs))
         = (uint (width (snd (ILI9341Rotate t s))) + 1)
           * (uint (height (snd (ILI9341Rotate t s))) + 1) * 2
     \<and> length (pixel_stream evs) = 154722
     \<and> uint (width (snd (ILI9341Rotate t s))) * uint (height (snd (ILI9341Rotate t s))) * 2
         = 153600"
proof -
  define w where "w = width (snd (ILI9341Rotate t s))"
  define h where "h = height (snd (ILI9341Rotate t s))"
  have dims: "(w = 240 \<and> h = 320) \<or> (w = 320 \<and> h = 240)"
    unfolding w_def h_def by (rule Rotate_dims)
  then have u: "(uint w = 240 \<and> uint h = 320) \<or> (uint w = 320 \<and> uint h = 240)" by auto
  then have b: "Fill_bytes 0 0 w h = 154722" by (auto simp add: Fill_bytes_def)
  have b': "Fill_bytes 0 0 w h = (uint w + 1) * (uint h + 1) * 2" by (simp add: Fill_bytes_def)
  have h1: "\<bar>uint w - uint (0 :: u16)\<bar> \<le> 32767" using u by auto
  have h2: "\<bar>uint h - uint (0 :: u16)\<bar> \<le> 32767" using u by auto
  have h3: "Fill_bytes 0 0 w h < 2 ^ 31" by (simp add: b)
  from Fill_result [OF h1 h2 h3, of color] obtain evs where
    evs: "Fill 0 0 w h color = Inr evs"
     "take 5 evs =
         [Command COLUMN_ADDR_SET,
           Data [HighByte (min 0 w), LowByte (min 0 w), HighByte (max 0 w), LowByte (max 0 w)],
           Command PAGE_ADDR_SET,
           Data [HighByte (min 0 h), LowByte (min 0 h), HighByte (max 0 h), LowByte (max 0 h)],
           Command MEM_WRITE]"
     "int (length (pixel_stream evs)) = Fill_bytes 0 0 w h"
    by blast
  have z: "HighByte 0 = 0" "LowByte 0 = 0" by (simp_all add: HighByte_def LowByte_def)
  have m: "min 0 w = 0" "max 0 w = w" "min 0 h = 0" "max 0 h = h"
    by (simp_all add: min_def max_def)
  have pre: "take 5 evs =
         [Command COLUMN_ADDR_SET, Data [0, 0, HighByte w, LowByte w],
          Command PAGE_ADDR_SET, Data [0, 0, HighByte h, LowByte h], Command MEM_WRITE]"
    using evs(2) by (simp only: m z)
  have l1: "int (length (pixel_stream evs)) = (uint w + 1) * (uint h + 1) * 2"
    using evs(3) b' by simp
  have l2: "length (pixel_stream evs) = 154722" using evs(3) b by simp
  have f: "ILI9341Fill (snd (ILI9341Rotate t s)) color = Fill 0 0 w h color"
    by (simp add: ILI9341Fill_def w_def h_def)
  have l3: "uint w * uint h * 2 = 153600" using u by auto
  from f evs(1) pre l1 l2 l3 show ?thesis unfolding w_def h_def by auto
qed

section \<open>Circles\<close>

lemma octant_symmetric_Un:
  "octant_symmetric x0 y0 A \<Longrightarrow> octant_symmetric x0 y0 B \<Longrightarrow> octant_symmetric x0 y0 (A \<union> B)"
  unfolding octant_symmetric_def by blast

lemma octant_symmetric_empty: "octant_symmetric x0 y0 {}"
  by (simp add: octant_symmetric_def)

lemma offsets_mem:
  fixes x0 y0 :: u16
  shows "(x0 + a, y0 + b) \<in> (\<lambda>(c, d). (x0 + c, y0 + d)) ` D \<longleftrightarrow> (a, b) \<in> D"
  by auto

lemma offsets_mem_minus:
  fixes x0 y0 :: u16
  shows "(x0 - a, y0 + b) \<in> (\<lambda>(c, d). (x0 + c, y0 + d)) ` D \<longleftrightarrow> (- a, b) \<in> D"
    "(x0 + a, y0 - b) \<in> (\<lambda>(c, d). (x0 + c, y0 + d)) ` D \<longleftrightarrow> (a, - b) \<in> D"
    "(x0 - a, y0 - b) \<in> (\<lambda>(c, d). (x0 + c, y0 + d)) ` D \<longleftrightarrow> (- a, - b) \<in> D"
  using offsets_mem [of x0 "- a" y0 b D] offsets_mem [of x0 a y0 "- b" D]
    offsets_mem [of x0 "- a" y0 "- b" D]
  by simp_all

lemma octant_symmetric_offsets:
  assumes "\<And>a b. (a, b) \<in> D \<Longrightarrow>
     (- a, b) \<in> D \<and> (a, - b) \<in> D \<and> (- a, - b) \<in> D \<and>
     (b, a) \<in> D \<and> (- b, a) \<in> D \<and> (b, - a) \<in> D \<and> (- b, - a) \<in> D"
  shows "octant_symmetric x0 y0 ((\<lambda>(c, d). (x0 + c, y0 + d)) ` D)"
  unfolding octant_symmetric_def offsets_mem offsets_mem_minus using assms by blast



lemma orbit_closed:
  "(a, b) \<in> orbit x y \<Longrightarrow>
     (- a, b) \<in> orbit x y \<and> (a, - b) \<in> orbit x y \<and> (- a, - b) \<in> orbit x y \<and>
     (b, a) \<in> orbit x y \<and> (- b, a) \<in> orbit x y \<and> (b, - a) \<in> orbit x y \<and>
     (- b, - a) \<in> orbit x y"
  unfolding orbit_def by (elim insertE emptyE; simp)

lemma octant_symmetric_orbit:
  "octant_symmetric x0 y0 ((\<lambda>(c, d). (x0 + c, y0 + d)) ` orbit x y)"
  by (rule octant_symmetric_offsets) (rule orbit_closed)

lemma drawn_pixels_append: "drawn_pixels (cs @ ds) = drawn_pixels cs \<union> drawn_pixels ds"
  by (simp add: drawn_pixels_def)

lemma drawn_pixels_orbit:
  "drawn_pixels
     [PixelCall (x0 + x) (y0 + y) color,
      PixelCall (x0 - x) (y0 + y) color,
      PixelCall (x0 + x) (y0 - y) color,
      PixelCall (x0 - x) (y0 - y) color,
      PixelCall (x0 + y) (y0 + x) color,
      PixelCall (x0 - y) (y0 + x) color,
      PixelCall (x0 + y) (y0 - x) color,
      PixelCall (x0 - y) (y0 - x) color]
   = (\<lambda>(c, d). (x0 + c, y0 + d)) ` orbit x y"
  apply (simp add: drawn_pixels_def orbit_def)
  apply blast
  done



lemma DrawCircle_loop_symmetric:
  "octant_symmetric x0 y0 (drawn_pixels (DrawCircle_loop x0 y0 color f ddF_x ddF_y x y))"
proof (induction x0 y0 color f ddF_x ddF_y x y rule: DrawCircle_loop.induct)
  case (1 x0 y0 color f ddF_x ddF_y x y)
  show ?case
  proof (cases "sint x < sint y")
    case False
    then have "DrawCircle_loop x0 y0 color f ddF_x ddF_y x y = []"
      by (subst DrawCircle_loop.simps) simp
    then show ?thesis by (simp add: drawn_pixels_def octant_symmetric_empty)
  next
    case True
    define y' where "y' = (if 0 \<le> sint f then y - 1 else y)"
    define ddF_y' where "ddF_y' = (if 0 \<le> sint f then ddF_y + 2 else ddF_y)"
    define f' where "f' = (if 0 \<le> sint f then f + (ddF_y + 2) else f)"
    have IH: "octant_symmetric x0 y0
        (drawn_pixels (DrawCircle_loop x0 y0 color (f' + (ddF_x + 2)) (ddF_x + 2) ddF_y' (x + 1) y'))"
      by (rule "1.IH" [OF True, of "(y', ddF_y', f')" y' "(ddF_y', f')" ddF_y' f'])
         (simp_all add: y'_def ddF_y'_def f'_def)
    have step: "DrawCircle_loop x0 y0 color f ddF_x ddF_y x y =
        [PixelCall (x0 + (x + 1)) (y0 + y') color,
         PixelCall (x0 - (x + 1)) (y0 + y') color,
         PixelCall (x0 + (x + 1)) (y0 - y') color,
         PixelCall (x0 - (x + 1)) (y0 - y') color,
         PixelCall (x0 + y') (y0 + (x + 1)) color,
         PixelCall (x0 - y') (y0 + (x + 1)) color,
         PixelCall (x0 + y') (y0 - (x + 1)) color,
         PixelCall (x0 - y') (y0 - (x + 1)) color]
        @ DrawCircle_loop x0 y0 color (f' + (ddF_x + 2)) (ddF_x + 2) ddF_y' (x + 1) y'"
      using True by (subst DrawCircle_loop.simps) (simp add: y'_def ddF_y'_def f'_def Let_def)
    show ?thesis
      unfolding step drawn_pixels_append drawn_pixels_orbit
      by (intro octant_symmetric_Un octant_symmetric_orbit IH)
  qed
qed

lemma drawn_pixels_cardinal:
  "drawn_pixels
     [PixelCall x0 (y0 + r) color, PixelCall x0 (y0 - r) color,
      PixelCall (x0 + r) y0 color, PixelCall (x0 - r) y0 color]
   = (\<lambda>(c, d). (x0 + c, y0 + d)) ` orbit 0 r"
  apply (simp add: drawn_pixels_def orbit_def)
  apply blast
  done

text \<open>
  C7. For every centre and radius, the set of pixels that \<open>ILI9341DrawCircle\<close> passes to
  \<open>ILI9341DrawPixel\<close> is symmetric under the eight reflections about the centre: with
  \<open>(x0 + a, y0 + b)\<close> it contains \<open>(x0 \<plusminus> a, y0 \<plusminus> b)\<close> and \<open>(x0 \<plusminus> b, y0 \<plusminus> a)\<close>. The
  four cardinal points are always drawn. Coordinates are 16-bit, as \<open>ILI9341DrawPixel\<close>
  receives them.
\<close>

theorem C7_circle_symmetric:
  "octant_symmetric x0 y0 (drawn_pixels (ILI9341DrawCircle x0 y0 r color))
   \<and> (x0, y0 + r) \<in> drawn_pixels (ILI9341DrawCircle x0 y0 r color)
   \<and> (x0, y0 - r) \<in> drawn_pixels (ILI9341DrawCircle x0 y0 r color)
   \<and> (x0 + r, y0) \<in> drawn_pixels (ILI9341DrawCircle x0 y0 r color)
   \<and> (x0 - r, y0) \<in> drawn_pixels (ILI9341DrawCircle x0 y0 r color)"
proof -
  let ?card = "[PixelCall x0 (y0 + r) color, PixelCall x0 (y0 - r) color,
      PixelCall (x0 + r) y0 color, PixelCall (x0 - r) y0 color]"
  have d: "drawn_pixels (ILI9341DrawCircle x0 y0 r color)
      = drawn_pixels ?card \<union> drawn_pixels (DrawCircle_loop x0 y0 color (1 - r) 1 (- 2 * r) 0 r)"
    by (simp only: ILI9341DrawCircle_def Let_def drawn_pixels_append)
  have s: "octant_symmetric x0 y0 (drawn_pixels (ILI9341DrawCircle x0 y0 r color))"
    unfolding d drawn_pixels_cardinal
    by (intro octant_symmetric_Un octant_symmetric_orbit DrawCircle_loop_symmetric)
  have c: "(x0, y0 + r) \<in> drawn_pixels ?card" "(x0, y0 - r) \<in> drawn_pixels ?card"
    "(x0 + r, y0) \<in> drawn_pixels ?card" "(x0 - r, y0) \<in> drawn_pixels ?card"
    by (simp_all add: drawn_pixels_def)
  show ?thesis using s c unfolding d by blast
qed


theorem C7_circle_symmetric_witness:
  "(13, 11) \<in> drawn_pixels (ILI9341DrawCircle 10 10 3 7)
   \<and> (7, 11) \<in> drawn_pixels (ILI9341DrawCircle 10 10 3 7)
   \<and> (13, 9) \<in> drawn_pixels (ILI9341DrawCircle 10 10 3 7)
   \<and> (7, 9) \<in> drawn_pixels (ILI9341DrawCircle 10 10 3 7)
   \<and> (11, 13) \<in> drawn_pixels (ILI9341DrawCircle 10 10 3 7)
   \<and> (9, 13) \<in> drawn_pixels (ILI9341DrawCircle 10 10 3 7)
   \<and> (11, 7) \<in> drawn_pixels (ILI9341DrawCircle 10 10 3 7)
   \<and> (9, 7) \<in> drawn_pixels (ILI9341DrawCircle 10 10 3 7)
   \<and> (10, 13) \<in> drawn_pixels (ILI9341DrawCircle 10 10 3 7)
   \<and> (10, 7) \<in> drawn_pixels (ILI9341DrawCircle 10 10 3 7)"
proof -
  let ?S = "drawn_pixels (ILI9341DrawCircle 10 10 3 7)"
  have p: "(10 + 3, 10 + 1) \<in> ?S"
    by (simp add: ILI9341DrawCircle_def drawn_pixels_def DrawCircle_loop.simps)
  from C7_circle_symmetric [of 10 10 3 7]
  have s: "octant_symmetric 10 10 ?S" and c: "(10, 10 + 3) \<in> ?S" "(10, 10 - 3) \<in> ?S"
    by simp_all
  from s p have
    "(10 - 3, 10 + 1) \<in> ?S \<and> (10 + 3, 10 - 1) \<in> ?S \<and> (10 - 3, 10 - 1) \<in> ?S \<and>
     (10 + 1, 10 + 3) \<in> ?S \<and> (10 - 1, 10 + 3) \<in> ?S \<and>
     (10 + 1, 10 - 3) \<in> ?S \<and> (10 - 1, 10 - 3) \<in> ?S"
    unfolding octant_symmetric_def by blast
  with p c show ?thesis by simp
qed

section \<open>Characters\<close>

lemma flush_arith:
  fixes p :: nat
  defines "k \<equiv> (2 * p - 2) div 256"
  shows "(2 * p) div 256 = (if 2 * int p - int k * 256 + 1 > 256 then k + 1 else k)"
    and "0 \<le> 2 * int p - int ((2 * p) div 256) * 256"
    and "2 * int p - int ((2 * p) div 256) * 256 + 1 < 256"
proof -
  define d where "d = (2 * p) div 256"
  define r0 where "r0 = (2 * p) mod 256"
  have e: "2 * p = 256 * d + r0" unfolding d_def r0_def by (rule mult_div_mod_eq [symmetric])
  then have "int (2 * p) = int (256 * d + r0)" by (rule arg_cong)
  then have m: "2 * int p - int d * 256 = int r0" by simp
  have "even (2 * p)" by simp
  then have "even (256 * d + r0)" by (simp only: e)
  then have "even r0" by simp
  moreover have "r0 < 256" by (simp add: r0_def)
  ultimately have r0: "r0 \<le> 254" by presburger
  show "0 \<le> 2 * int p - int ((2 * p) div 256) * 256" unfolding d_def [symmetric] m by simp
  show "2 * int p - int ((2 * p) div 256) * 256 + 1 < 256"
    unfolding d_def [symmetric] m using r0 by simp
  show "(2 * p) div 256 = (if 2 * int p - int k * 256 + 1 > 256 then k + 1 else k)"
  proof (cases p)
    case 0
    then show ?thesis by (simp add: k_def)
  next
    case (Suc q)
    then have "2 * p - 2 = 2 * q" by simp
    then have k: "k = (2 * q) div 256" by (simp only: k_def)
    define r where "r = (2 * q) mod 256"
    have q: "2 * q = 256 * k + r" unfolding k r_def by (rule mult_div_mod_eq [symmetric])
    have "even (2 * q)" by simp
    then have "even (256 * k + r)" by (simp only: q)
    then have "even r" by simp
    moreover have "r < 256" by (simp add: r_def)
    ultimately have r: "r = 254 \<or> r \<le> 252" by presburger
    have p: "2 * p = 256 * k + (r + 2)" using Suc q by simp
    show ?thesis
    proof (cases "r = 254")
      case True
      then have "2 * p = (k + 1) * 256" using p by simp
      then have "(2 * p) div 256 = k + 1" by (simp only: nonzero_mult_div_cancel_right)
      moreover have "2 * int p - int k * 256 + 1 > 256" using p True by simp
      ultimately show ?thesis by simp
    next
      case False
      then have rr: "r + 2 < 256" using r by simp
      have "(256 * k + (r + 2)) div 256 = k" using rr by simp
      then have "(2 * p) div 256 = k" by (simp only: p)
      moreover have "int (2 * p) = 256 * int k + int (r + 2)" using p by simp
      then have "\<not> 2 * int p - int k * 256 + 1 > 256" using rr by simp
      ultimately show ?thesis by simp
    qed
  qed
qed


lemma data_blocks_append: "data_blocks (a @ b) = data_blocks a @ data_blocks b"
  by (induction a rule: data_blocks.induct) simp_all

lemma DrawChar_step:
  assumes inv: "DrawChar_inv T (i * FontWidth font + j) (k, bytes_count, pixel, sent)"
    and j: "j < FontWidth font"
  shows "\<exists>v'. DrawChar_columns font fg bg row i j (k, bytes_count, pixel, sent)
            = DrawChar_columns font fg bg row i (j + 1) v'
          \<and> DrawChar_inv T (i * FontWidth font + (j + 1)) v'"
proof -
  define W where "W = FontWidth font"
  define p where "p = i * W + j"
  define c where "c \<longleftrightarrow> 2 * int p - int k * 256 + 1 > 256"
  define k' where "k' = (if c then k + 1 else k)"
  define bc' where "bc' = (if c then bytes_count - 256 else bytes_count)"
  define sent' where "sent' = (if c then sent @ [Data pixel] else sent)"
  define idx where "idx = 2 * int p - int k' * 256"
  define col where "col = (if uint row AND drop_bit j MSK_BIT16 \<noteq> 0 then fg else bg)"
  from inv have len: "length pixel = 256" and k: "k = (2 * p - 2) div 256"
    and bc: "bytes_count = T - 256 * int k"
    and sent: "sent = map Data (data_blocks sent)"
      "map length (data_blocks sent) = replicate k 256"
    by (simp_all add: DrawChar_inv_def p_def W_def)
  have ip: "2 * int j + int i * int (FontWidth font) * 2 = 2 * int p"
    by (simp add: p_def W_def)
  have k'_eq: "k' = (2 * p) div 256"
    using flush_arith(1) [of p] unfolding k'_def c_def k by simp
  have idx0: "0 \<le> idx" and idx1: "idx + 1 < 256"
    using flush_arith(2,3) [of p] unfolding idx_def k'_eq by simp_all
  have chunk: "WriteLCD \<lparr>cmd = SEND_PIXELS, databytes = word_of_int MAX_VALUE_SIZE, data = pixel\<rparr>
       = Inr [Data pixel]"
    using WriteLCD_pixels [of 256 pixel] len by (simp add: MAX_VALUE_SIZE_def)
  let ?v' = "(k', bc', pixel[nat idx := HighByte col, nat idx + 1 := LowByte col], sent')"
  have c1: "(MAX_VALUE_SIZE < 2 * int j + int i * int (FontWidth font) * 2 - int k * MAX_VALUE_SIZE + 1) = c"
    unfolding c_def ip MAX_VALUE_SIZE_def by simp
  have i1: "2 * int j + int i * int (FontWidth font) * 2 - int k' * MAX_VALUE_SIZE = idx"
    unfolding idx_def ip MAX_VALUE_SIZE_def by simp
  have i2: "(0 \<le> idx \<and> idx + 1 < MAX_VALUE_SIZE) = True"
    using idx0 idx1 by (simp add: MAX_VALUE_SIZE_def)
  have step: "DrawChar_columns font fg bg row i j (k, bytes_count, pixel, sent)
      = DrawChar_columns font fg bg row i (j + 1) ?v'"
  proof (cases c)
    case True
    then have e: "k' = k + 1" "bc' = bytes_count - MAX_VALUE_SIZE" "sent' = sent @ [Data pixel]"
      by (simp_all add: k'_def bc'_def sent'_def MAX_VALUE_SIZE_def)
    show ?thesis
      apply (subst DrawChar_columns.simps)
      apply (simp only: j if_True c1 True chunk sum.case prod.case e [symmetric] i1 Let_def i2
          col_def [symmetric])
      done
  next
    case False
    then have e: "k' = k" "bc' = bytes_count" "sent' = sent"
      by (simp_all add: k'_def bc'_def sent'_def)
    show ?thesis
      apply (subst DrawChar_columns.simps)
      apply (simp only: j if_True c1 False if_False sum.case prod.case)
      apply (simp only: e [symmetric] i1 Let_def i2 if_True col_def [symmetric])
      done
  qed
  have "DrawChar_inv T (i * FontWidth font + (j + 1)) ?v'"
  proof -
    have a: "(2 * (i * FontWidth font + (j + 1)) - 2) div 256 = k'"
      unfolding k'_eq p_def W_def by simp
    have b: "bc' = T - 256 * int k'" by (simp add: bc'_def k'_def bc)
    have c1: "sent' = map Data (data_blocks sent')"
      using sent(1) by (simp add: sent'_def data_blocks_append)
    have c2: "map length (data_blocks sent') = replicate k' 256"
      using sent(2) len by (simp add: sent'_def k'_def data_blocks_append replicate_append_same)
    show ?thesis
      unfolding DrawChar_inv_def using len a b c1 c2 by simp
  qed
  with step show ?thesis by blast
qed


lemma DrawChar_columns_inv:
  assumes "DrawChar_inv T (i * FontWidth font + j) v" and "j \<le> FontWidth font"
  shows "\<exists>v'. DrawChar_columns font fg bg row i j v = Inr v'
          \<and> DrawChar_inv T ((i + 1) * FontWidth font) v'"
  using assms
proof (induction "FontWidth font - j" arbitrary: j v)
  case 0
  then have j: "j = FontWidth font" by simp
  obtain k bytes_count pixel sent where v: "v = (k, bytes_count, pixel, sent)"
    by (cases v) auto
  have "DrawChar_columns font fg bg row i j v = Inr v"
    unfolding v by (subst DrawChar_columns.simps) (simp add: j)
  moreover have "DrawChar_inv T ((i + 1) * FontWidth font) v"
    using "0.prems"(1) by (simp add: j add.commute)
  ultimately show ?case by blast
next
  case (Suc n)
  then have j: "j < FontWidth font" by simp
  obtain k bytes_count pixel sent where v: "v = (k, bytes_count, pixel, sent)"
    by (cases v) auto
  from DrawChar_step [OF Suc.prems(1) [unfolded v] j, of fg bg row]
  obtain v' where
    s: "DrawChar_columns font fg bg row i j v = DrawChar_columns font fg bg row i (j + 1) v'"
    and inv: "DrawChar_inv T (i * FontWidth font + (j + 1)) v'"
    unfolding v by blast
  have "n = FontWidth font - (j + 1)" using Suc.hyps(2) by simp
  from Suc.hyps(1) [OF this inv] j show ?case unfolding s by simp
qed

lemma DrawChar_rows_inv:
  assumes "DrawChar_inv T (i * FontWidth font) v" and "i \<le> FontHeight font"
  shows "\<exists>v'. DrawChar_rows font around ch fg bg i v = Inr v'
          \<and> DrawChar_inv T (FontHeight font * FontWidth font) v'"
  using assms
proof (induction "FontHeight font - i" arbitrary: i v)
  case 0
  then have i: "i = FontHeight font" by simp
  have "DrawChar_rows font around ch fg bg i v = Inr v"
    by (subst DrawChar_rows.simps) (simp add: i)
  then show ?case using "0.prems"(1) by (simp add: i)
next
  case (Suc n)
  then have i: "i < FontHeight font" by simp
  define row where "row = font_row font around (row_index font ch i)"
  from DrawChar_columns_inv [of T i font 0 v fg bg row] Suc.prems(1)
  obtain v' where
    c: "DrawChar_columns font fg bg row i 0 v = Inr v'"
    and inv: "DrawChar_inv T ((i + 1) * FontWidth font) v'"
    by auto
  have s: "DrawChar_rows font around ch fg bg i v
      = DrawChar_rows font around ch fg bg (i + 1) v'"
    apply (subst DrawChar_rows.simps)
    apply (simp only: i if_True row_def [symmetric] Let_def c sum.case)
    done
  have "n = FontHeight font - (i + 1)" using Suc.hyps(2) by simp
  from Suc.hyps(1) [OF this inv] i show ?case unfolding s by simp
qed

lemma pixel_chunks_window:
  "pixel_chunks ([Command COLUMN_ADDR_SET, Data a, Command PAGE_ADDR_SET, Data b,
                  Command MEM_WRITE] @ rest) = data_blocks rest"
  by (simp add: pixel_chunks_def COLUMN_ADDR_SET_def PAGE_ADDR_SET_def MEM_WRITE_def)

lemma last_chunk_arith:
  fixes P :: nat
  assumes "0 < P"
  defines "k \<equiv> (2 * P - 2) div 256"
  shows "0 < 2 * int P - 256 * int k" and "2 * int P - 256 * int k \<le> 256"
proof -
  define m where "m = (2 * P - 2) mod 256"
  have "2 * P - 2 = 256 * k + m" unfolding k_def m_def by (rule mult_div_mod_eq [symmetric])
  then have e: "2 * P = 256 * k + m + 2" using assms(1) by simp
  then have "int (2 * P) = int (256 * k + m + 2)" by (rule arg_cong)
  then have i: "2 * int P - 256 * int k = int m + 2" by simp
  have "even (2 * P)" by simp
  then have "even (256 * k + m + 2)" by (simp only: e)
  then have "even m" by simp
  moreover have "m < 256" by (simp add: m_def)
  ultimately have "m \<le> 254" by presburger
  then show "0 < 2 * int P - 256 * int k" and "2 * int P - 256 * int k \<le> 256"
    unfolding i by simp_all
qed

lemma DrawChar_result:
  assumes P: "0 < FontHeight font * FontWidth font"
  shows "\<exists>evs. ILI9341DrawChar s around x y ch font fg bg = Inr evs
     \<and> map length (pixel_chunks evs) =
         replicate ((2 * (FontHeight font * FontWidth font) - 2) div 256) 256
         @ [2 * (FontHeight font * FontWidth font)
            - 256 * ((2 * (FontHeight font * FontWidth font) - 2) div 256)]"
proof -
  define H where "H = FontHeight font"
  define W where "W = FontWidth font"
  define T where "T = int H * int W * 2"
  define k where "k = (2 * (H * W) - 2) div 256"
  have inv0: "DrawChar_inv T (0 * FontWidth font) (0, T, replicate 256 0, [])"
    by (simp add: DrawChar_inv_def)
  from DrawChar_rows_inv [OF inv0, of around ch fg bg]
  obtain v' where r: "DrawChar_rows font around ch fg bg 0 (0, T, replicate 256 0, []) = Inr v'"
    and inv: "DrawChar_inv T (FontHeight font * FontWidth font) v'"
    by auto
  obtain k' bc pixel sent where v': "v' = (k', bc, pixel, sent)" by (cases v') auto
  from inv have len: "length pixel = 256" and k': "k' = k"
    and bc: "bc = T - 256 * int k"
    and sent: "sent = map Data (data_blocks sent)"
      "map length (data_blocks sent) = replicate k 256"
    by (simp_all add: DrawChar_inv_def v' k_def H_def W_def)
  have TT: "T = 2 * int (H * W)" by (simp add: T_def)
  have b: "0 < bc" "bc \<le> 256"
    using last_chunk_arith [of "H * W"] P unfolding bc TT k_def H_def W_def by simp_all
  have fin: "WriteLCD \<lparr>cmd = SEND_PIXELS, databytes = word_of_int bc, data = pixel\<rparr>
      = Inr [Data (take (nat bc) pixel)]"
    using WriteLCD_pixels [of bc pixel] b len by simp
  have st: "WriteLCD \<lparr>cmd = MEM_WRITE, databytes = 0, data = []\<rparr> = Inr [Command MEM_WRITE]"
    by (simp add: WriteLCD_def lcd_cmd_def MEM_WRITE_def)
  obtain a c where
    dc: "ILI9341DrawChar s around x y ch font fg bg =
      Inr ([Command COLUMN_ADDR_SET, Data a, Command PAGE_ADDR_SET, Data c, Command MEM_WRITE]
           @ (sent @ [Data (take (nat bc) pixel)]))"
    unfolding ILI9341DrawChar_def Let_def
    by (simp add: r [unfolded T_def H_def W_def] v' fin st SetCursorPosition_trace split_beta)
  have "map length (data_blocks (sent @ [Data (take (nat bc) pixel)])) = replicate k 256 @ [nat bc]"
    using sent(2) b len by (simp add: data_blocks_append)
  moreover have "nat bc = 2 * (H * W) - 256 * k"
  proof -
    have "int (256 * k) \<le> int (2 * (H * W))" using b(1) unfolding bc TT by simp
    then have "256 * k \<le> 2 * (H * W)" by (simp only: of_nat_le_iff)
    then have "int (2 * (H * W) - 256 * k) = int (2 * (H * W)) - int (256 * k)"
      by (rule of_nat_diff)
    also have "\<dots> = bc" unfolding bc TT by simp
    finally show ?thesis by simp
  qed
  ultimately have "map length (pixel_chunks
      ([Command COLUMN_ADDR_SET, Data a, Command PAGE_ADDR_SET, Data c, Command MEM_WRITE]
           @ (sent @ [Data (take (nat bc) pixel)])))
      = replicate k 256 @ [2 * (H * W) - 256 * k]"
    by (simp only: pixel_chunks_window)
  with dc show ?thesis unfolding H_def W_def k_def by blast
qed


lemma pixel_stream_length: "length (pixel_stream evs) = sum_list (map length (pixel_chunks evs))"
  by (simp add: pixel_stream_def length_concat)

text \<open>
  C5. For a font with glyph width 16 and glyph height 26, every call of
  \<open>ILI9341DrawChar\<close> (every character, position, orientation and colours, whatever the
  font bitmap and the memory around it hold) sends \<open>16 * 26 * 2 = 832\<close> bytes of pixels,
  as three transfers of 256 bytes followed by one of 64 bytes.
\<close>

theorem C5_DrawChar_16x26:
  assumes "FontWidth font = 16" and "FontHeight font = 26"
  shows "\<exists>evs. ILI9341DrawChar s around x y ch font foreground background = Inr evs
     \<and> map length (pixel_chunks evs) = [256, 256, 256, 64]
     \<and> length (pixel_stream evs) = 16 * 26 * 2"
proof -
  have P: "0 < FontHeight font * FontWidth font" using assms(1,2) by simp
  from DrawChar_result [OF P, of s around x y ch foreground background]
  obtain evs where e: "ILI9341DrawChar s around x y ch font foreground background = Inr evs"
    and c: "map length (pixel_chunks evs) =
         replicate ((2 * (FontHeight font * FontWidth font) - 2) div 256) 256
         @ [2 * (FontHeight font * FontWidth font)
            - 256 * ((2 * (FontHeight font * FontWidth font) - 2) div 256)]"
    by blast
  have k: "(2 * (26 * 16) - 2) div 256 = (3 :: nat)" by simp
  have r3: "replicate 3 (256 :: nat) = [256, 256, 256]" by (simp add: numeral_3_eq_3)
  have b: "2 * (26 * 16) - 256 * 3 = (64 :: nat)" by simp
  have c': "map length (pixel_chunks evs) = [256, 256, 256, 64]"
    unfolding c assms(1,2) k r3 b by simp
  have l: "length (pixel_stream evs) = 16 * 26 * 2"
    unfolding pixel_stream_length c' by simp
  show ?thesis by (rule exI [of _ evs]) (intro conjI e c' l)
qed

theorem C5_DrawChar_16x26_witness:
  "\<exists>evs. ILI9341DrawChar lcd_orientation (\<lambda>idx. 0) 0 0 65 font_16x26 0xFFFF 0 = Inr evs
     \<and> map length (pixel_chunks evs) = [256, 256, 256, 64]
     \<and> length (pixel_stream evs) = 832"
proof -
  have w: "FontWidth font_16x26 = 16" and h: "FontHeight font_16x26 = 26"
    by (simp_all add: font_16x26_def)
  from C5_DrawChar_16x26 [OF w h, of lcd_orientation "\<lambda>idx. 0" 0 0 65 "0xFFFF" 0]
  show ?thesis by simp
qed





section \<open>Strings\<close>

lemma peek_simps [simp]: "peek [] = 0" "peek (c # cs) = c"
  by (simp_all add: peek_def)












section \<open>Lines\<close>

text \<open>
  C3. The claim that both endpoints of an in-range line are drawn fails on the code: the
  loop of \<open>ILI9341DrawLine\<close> stops as soon as one of the two coordinates reaches its end
  value. The line from \<open>(0, 0)\<close> to \<open>(3, 1)\<close> in the initial orientation is drawn as three
  pixels, and \<open>(3, 1)\<close> is not among them.
\<close>

theorem C3_DrawLine_stops_short:
  "ILI9341DrawLine lcd_orientation 0 0 3 1 color
     = Some [PixelCall 0 0 color, PixelCall 1 0 color, PixelCall 2 1 color]
   \<and> (3, 1) \<notin> drawn_pixels [PixelCall 0 0 color, PixelCall 1 0 color, PixelCall 2 1 color]"
  by (simp add: ILI9341DrawLine_def lcd_orientation_def ILI9341_WIDTH_def ILI9341_HEIGHT_def
      LEFT_def RIGHT_def UP_def DOWN_def DrawLine_loop.simps drawn_pixels_def word_le_def word_less_def)

lemma step_right:
  fixes a b :: u16
  assumes "a < b"
  shows "a + 1 \<le> b" "a \<le> a + 1" "distance (a + 1) b < distance a b"
proof -
  have lt: "unat a < unat b" using assms by (simp add: word_less_nat_alt)
  have "unat b < 65536" using unsigned_less [of b, where ?'a = nat] by simp
  then have "unat a + unat (1 :: u16) < 2 ^ LENGTH(16)" using lt by simp
  then have u: "unat (a + 1) = unat a + 1" by (simp add: unat_add_lem [THEN iffD1])
  show "a + 1 \<le> b" using lt u by (simp add: word_le_nat_alt)
  show "a \<le> a + 1" using u by (simp add: word_le_nat_alt)
  show "distance (a + 1) b < distance a b"
    using lt u by (simp add: distance_def word_le_nat_alt)
qed

lemma step_left:
  fixes a b :: u16
  assumes "b < a"
  shows "b \<le> a + (- 1)" "a + (- 1) \<le> a" "distance (a + (- 1)) b < distance a b"
proof -
  have lt: "unat b < unat a" using assms by (simp add: word_less_nat_alt)
  then have "a \<noteq> 0" by auto
  then have u: "unat (a - 1) = unat a - 1" by (rule unat_minus_one)
  show "b \<le> a + (- 1)" using lt u by (simp add: word_le_nat_alt)
  show "a + (- 1) \<le> a" using u by (simp add: word_le_nat_alt)
  show "distance (a + (- 1)) b < distance a b"
    using lt u by (auto simp add: distance_def word_le_nat_alt)
qed


lemma axis_step:
  fixes a b g :: u16
  assumes g: "(g = 1 \<and> a \<le> b) \<or> (g = - 1 \<and> b \<le> a)" and ne: "a \<noteq> b"
  shows "(g = 1 \<and> a + g \<le> b) \<or> (g = - 1 \<and> b \<le> a + g)"
    and "between a b (a + g)"
    and "distance (a + g) b < distance a b"
    and "between (a + g) b v \<Longrightarrow> between a b v"
proof -
  from g show "(g = 1 \<and> a + g \<le> b) \<or> (g = - 1 \<and> b \<le> a + g)"
  proof
    assume h: "g = 1 \<and> a \<le> b"
    then have "a < b" using ne by (simp add: less_le)
    from step_right(1) [OF this] h show ?thesis by simp
  next
    assume h: "g = - 1 \<and> b \<le> a"
    then have "b < a" using ne by (simp add: less_le)
    from step_left(1) [OF this] h show ?thesis by simp
  qed
  from g show "between a b (a + g)"
  proof
    assume h: "g = 1 \<and> a \<le> b"
    then have "a < b" using ne by (simp add: less_le)
    from step_right(1,2) [OF this] h show ?thesis by (simp add: between_def)
  next
    assume h: "g = - 1 \<and> b \<le> a"
    then have "b < a" using ne by (simp add: less_le)
    from step_left(1,2) [OF this] h show ?thesis by (simp add: between_def)
  qed
  from g show "distance (a + g) b < distance a b"
  proof
    assume h: "g = 1 \<and> a \<le> b"
    then have "a < b" using ne by (simp add: less_le)
    from step_right(3) [OF this] h show ?thesis by simp
  next
    assume h: "g = - 1 \<and> b \<le> a"
    then have "b < a" using ne by (simp add: less_le)
    from step_left(3) [OF this] h show ?thesis by simp
  qed
  assume v: "between (a + g) b v"
  from g show "between a b v"
  proof
    assume h: "g = 1 \<and> a \<le> b"
    then have "a < b" using ne by (simp add: less_le)
    from step_right(1,2) [OF this] h v show ?thesis by (auto simp add: between_def)
  next
    assume h: "g = - 1 \<and> b \<le> a"
    then have "b < a" using ne by (simp add: less_le)
    from step_left(1,2) [OF this] h v show ?thesis by (auto simp add: between_def)
  qed
qed

lemma DrawLine_loop_run:
  assumes xd: "0 < sint x_dist" and yd: "0 < sint y_dist"
    and gx: "(x_grow = 1 \<and> x0 \<le> x1) \<or> (x_grow = - 1 \<and> x1 \<le> x0)"
    and gy: "(y_grow = 1 \<and> y0 \<le> y1) \<or> (y_grow = - 1 \<and> y1 \<le> y0)"
  shows "\<exists>cs. DrawLine_loop color x_dist y_dist x_grow y_grow x1 y1 x0 y0 error calls
            = Some (calls @ PixelCall x0 y0 color # cs)
          \<and> (\<forall>call \<in> set cs. \<exists>x y. call = PixelCall x y color
                \<and> between x0 x1 x \<and> between y0 y1 y)"
  using gx gy
proof (induction "distance x0 x1 + distance y0 y1" arbitrary: x0 y0 error calls
    rule: less_induct)
  case less
  show ?case
  proof (cases "x0 = x1 \<or> y0 = y1")
    case True
    then have "DrawLine_loop color x_dist y_dist x_grow y_grow x1 y1 x0 y0 error calls
        = Some (calls @ [PixelCall x0 y0 color])"
      by (subst DrawLine_loop.simps) (simp add: Let_def)
    then show ?thesis by simp
  next
    case False
    then have nx: "x0 \<noteq> x1" and ny: "y0 \<noteq> y1" by simp_all
    define mx where "mx \<longleftrightarrow> - sint x_dist < sint error"
    define my where "my \<longleftrightarrow> sint error < sint y_dist"
    define x' where "x' = (if mx then x0 + x_grow else x0)"
    define y' where "y' = (if my then y0 + y_grow else y0)"
    define e1 where "e1 = (if mx then error - y_dist else error)"
    define e2 where "e2 = (if my then e1 + x_dist else e1)"
    have step: "DrawLine_loop color x_dist y_dist x_grow y_grow x1 y1 x0 y0 error calls
        = DrawLine_loop color x_dist y_dist x_grow y_grow x1 y1 x' y' e2
            (calls @ [PixelCall x0 y0 color])"
      using False
      by (subst DrawLine_loop.simps)
         (simp add: Let_def mx_def my_def x'_def y'_def e1_def e2_def)
    have moved: "mx \<or> my" using xd yd unfolding mx_def my_def by linarith
    note ax = axis_step [OF less.prems(1) nx]
    note ay = axis_step [OF less.prems(2) ny]
    have gx': "(x_grow = 1 \<and> x' \<le> x1) \<or> (x_grow = - 1 \<and> x1 \<le> x')"
      using ax(1) less.prems(1) by (simp add: x'_def)
    have gy': "(y_grow = 1 \<and> y' \<le> y1) \<or> (y_grow = - 1 \<and> y1 \<le> y')"
      using ay(1) less.prems(2) by (simp add: y'_def)
    have bx: "between x0 x1 x'" using ax(2) less.prems(1) by (auto simp add: x'_def between_def)
    have by': "between y0 y1 y'" using ay(2) less.prems(2) by (auto simp add: y'_def between_def)
    have mono_x: "between x' x1 v \<Longrightarrow> between x0 x1 v" for v
      using ax(4) [of v] by (simp add: x'_def split: if_splits)
    have mono_y: "between y' y1 v \<Longrightarrow> between y0 y1 v" for v
      using ay(4) [of v] by (simp add: y'_def split: if_splits)
    have dec: "distance x' x1 + distance y' y1 < distance x0 x1 + distance y0 y1"
      using moved ax(3) ay(3) by (auto simp add: x'_def y'_def)
    from less.hyps [OF dec gx' gy', of e2 "calls @ [PixelCall x0 y0 color]"]
    obtain cs where r: "DrawLine_loop color x_dist y_dist x_grow y_grow x1 y1 x' y' e2
            (calls @ [PixelCall x0 y0 color])
          = Some ((calls @ [PixelCall x0 y0 color]) @ PixelCall x' y' color # cs)"
      and b: "\<forall>call \<in> set cs. \<exists>x y. call = PixelCall x y color
                \<and> between x' x1 x \<and> between y' y1 y"
      by blast
    have "\<forall>call \<in> set (PixelCall x' y' color # cs). \<exists>x y. call = PixelCall x y color
                \<and> between x0 x1 x \<and> between y0 y1 y"
      using b bx by' mono_x mono_y by auto
    then show ?thesis unfolding step r by auto
  qed
qed


lemma clamp_fix:
  "(if d \<le> clamp_coordinate d v then d - 1 else clamp_coordinate d v) = clamp_coordinate d v"
  by (simp add: clamp_coordinate_def)

lemma clamp_less: "d \<noteq> 0 \<Longrightarrow> clamp_coordinate d v < d"
proof -
  assume "d \<noteq> 0"
  then have "unat (d - 1) = unat d - 1" by (rule unat_minus_one)
  moreover have "unat d \<noteq> 0" using \<open>d \<noteq> 0\<close> by (simp add: unat_eq_0)
  ultimately have "d - 1 < d" by (simp add: word_less_nat_alt)
  then show ?thesis by (auto simp add: clamp_coordinate_def not_le)
qed

lemma DrawLine_unfold:
  fixes s x0 y0 x1 y1 color
  defines "X0 \<equiv> clamp_coordinate (width s) x0" and "X1 \<equiv> clamp_coordinate (width s) x1"
    and "Y0 \<equiv> clamp_coordinate (height s) y0" and "Y1 \<equiv> clamp_coordinate (height s) y1"
  defines "xd \<equiv> (if X0 > X1 then - (X1 - X0) else X1 - X0)"
    and "yd \<equiv> (if Y0 > Y1 then - (Y1 - Y0) else Y1 - Y0)"
  shows "ILI9341DrawLine s x0 y0 x1 y1 color =
     (if xd = 0 \<or> yd = 0 then Some [FillCall X0 Y0 X1 Y1 color]
      else DrawLine_loop color xd yd (if X0 > X1 then LEFT else RIGHT)
             (if Y0 > Y1 then UP else DOWN) X1 Y1 X0 Y0
             (if sint xd > sint yd then word_of_int (sint xd sdiv 2)
              else word_of_int (sint yd sdiv 2)) [])"
  unfolding ILI9341DrawLine_def Let_def
    clamp_coordinate_def [symmetric, of "width s"] clamp_coordinate_def [symmetric, of "height s"]
    X0_def [symmetric] X1_def [symmetric] Y0_def [symmetric] Y1_def [symmetric]
  by (cases "X0 > X1"; cases "Y0 > Y1"; simp add: xd_def yd_def)


lemma DrawPixel_trace:
  "ILI9341DrawPixel x y color =
     Inr [Command COLUMN_ADDR_SET, Data [HighByte x, LowByte x, HighByte x, LowByte x],
          Command PAGE_ADDR_SET, Data [HighByte y, LowByte y, HighByte y, LowByte y],
          Command MEM_WRITE, Data [HighByte color, LowByte color]]"
  by (simp add: ILI9341DrawPixel_def SetCursorPosition_trace WriteLCD_def lcd_cmd_def
      lcd_data_def MEM_WRITE_def)

lemma exec_calls_pixels:
  "(\<forall>call \<in> set cs. \<exists>x y c. call = PixelCall x y c) \<Longrightarrow> \<exists>evs. exec_calls cs = Inr evs"
proof (induction cs)
  case Nil
  show ?case by simp
next
  case (Cons a cs)
  then obtain x y c where a: "a = PixelCall x y c" by auto
  from Cons obtain evs where "exec_calls cs = Inr evs" by auto
  then show ?case by (simp add: a DrawPixel_trace)
qed

lemma between_less:
  "between a b v \<Longrightarrow> a < d \<Longrightarrow> b < d \<Longrightarrow> v < d"
  by (auto simp add: between_def)

lemma sint_dist_pos:
  fixes X0 X1 :: u16
  assumes "uint X0 < 32768" "uint X1 < 32768"
  defines "xd \<equiv> (if X0 > X1 then - (X1 - X0) else X1 - X0)"
  shows "sint xd = \<bar>uint X1 - uint X0\<bar>" and "xd \<noteq> 0 \<Longrightarrow> 0 < sint xd"
proof -
  have "0 \<le> uint X0" "0 \<le> uint X1" by simp_all
  then have "\<bar>uint X1 - uint X0\<bar> \<le> 32767" using assms(1,2) by linarith
  from dist_sint [OF this] show s: "sint xd = \<bar>uint X1 - uint X0\<bar>" by (simp add: xd_def)
  assume "xd \<noteq> 0"
  then have "sint xd \<noteq> 0" by (simp add: signed_eq_0_iff)
  then show "0 < sint xd" unfolding s by simp
qed

lemma DrawLine_result:
  fixes s x0 y0 x1 y1 color
  defines "X0 \<equiv> clamp_coordinate (width s) x0" and "X1 \<equiv> clamp_coordinate (width s) x1"
    and "Y0 \<equiv> clamp_coordinate (height s) y0" and "Y1 \<equiv> clamp_coordinate (height s) y1"
  assumes w: "width s \<noteq> 0" "uint (width s) \<le> 32768"
    and h: "height s \<noteq> 0" "uint (height s) \<le> 32768"
  shows "\<exists>cs. ILI9341DrawLine s x0 y0 x1 y1 color = Some cs
     \<and> drawn_pixels cs \<subseteq> {(x, y). x < width s \<and> y < height s}
     \<and> (X0, Y0) \<in> drawn_pixels cs
     \<and> (\<exists>evs. exec_calls cs = Inr evs)"
proof -
  define xd where "xd = (if X0 > X1 then - (X1 - X0) else X1 - X0)"
  define yd where "yd = (if Y0 > Y1 then - (Y1 - Y0) else Y1 - Y0)"
  have lt: "X0 < width s" "X1 < width s" "Y0 < height s" "Y1 < height s"
    unfolding X0_def X1_def Y0_def Y1_def using w(1) h(1) by (simp_all add: clamp_less)
  then have u: "uint X0 < 32768" "uint X1 < 32768" "uint Y0 < 32768" "uint Y1 < 32768"
    using w(2) h(2) by (simp_all add: word_less_def)
  note sx = sint_dist_pos [OF u(1,2), folded xd_def]
  note sy = sint_dist_pos [OF u(3,4), folded yd_def]
  note unf = DrawLine_unfold [of s x0 y0 x1 y1 color, folded X0_def X1_def Y0_def Y1_def,
      folded xd_def yd_def]
  show ?thesis
  proof (cases "xd = 0 \<or> yd = 0")
    case True
    have r: "ILI9341DrawLine s x0 y0 x1 y1 color = Some [FillCall X0 Y0 X1 Y1 color]"
      unfolding unf using True by simp
    have sub: "drawn_pixels [FillCall X0 Y0 X1 Y1 color] \<subseteq> {(x, y). x < width s \<and> y < height s}"
      using lt by (auto simp add: drawn_pixels_def max_def split: if_splits)
    have corner: "(X0, Y0) \<in> drawn_pixels [FillCall X0 Y0 X1 Y1 color]"
      by (simp add: drawn_pixels_def)
    have nn: "0 \<le> uint X0" "0 \<le> uint X1" "0 \<le> uint Y0" "0 \<le> uint Y1" by simp_all
    have dx: "\<bar>uint X1 - uint X0\<bar> \<le> 32767" using u(1,2) nn(1,2) by linarith
    have dy: "\<bar>uint Y1 - uint Y0\<bar> \<le> 32767" using u(3,4) nn(3,4) by linarith
    have "\<bar>uint X1 - uint X0\<bar> = 0 \<or> \<bar>uint Y1 - uint Y0\<bar> = 0"
      using True sx(1) sy(1) by (metis sint_0)
    then have "Fill_bytes X0 Y0 X1 Y1 \<le> 32768 * 2"
      using dx dy unfolding Fill_bytes_def by auto
    then have t: "Fill_bytes X0 Y0 X1 Y1 < 2 ^ 31" by simp
    from Fill_result [OF dx dy t, of color] obtain evs where "Fill X0 Y0 X1 Y1 color = Inr evs"
      by blast
    then have ex: "\<exists>evs. exec_calls [FillCall X0 Y0 X1 Y1 color] = Inr evs" by simp
    show ?thesis unfolding r using sub corner ex by blast
  next
    case False
    then have pos: "0 < sint xd" "0 < sint yd" using sx(2) sy(2) by simp_all
    have gx: "((if X0 > X1 then LEFT else RIGHT) = 1 \<and> X0 \<le> X1)
        \<or> ((if X0 > X1 then LEFT else RIGHT) = - 1 \<and> X1 \<le> X0)"
      by (auto simp add: LEFT_def RIGHT_def)
    have gy: "((if Y0 > Y1 then UP else DOWN) = 1 \<and> Y0 \<le> Y1)
        \<or> ((if Y0 > Y1 then UP else DOWN) = - 1 \<and> Y1 \<le> Y0)"
      by (auto simp add: UP_def DOWN_def)
    define err :: u16 where "err = (if sint xd > sint yd then word_of_int (sint xd sdiv 2)
              else word_of_int (sint yd sdiv 2))"
    from DrawLine_loop_run [OF pos gx gy, of color err "[]"]
    obtain cs where l: "DrawLine_loop color xd yd (if X0 > X1 then LEFT else RIGHT)
             (if Y0 > Y1 then UP else DOWN) X1 Y1 X0 Y0 err [] = Some (PixelCall X0 Y0 color # cs)"
      and b: "\<forall>call \<in> set cs. \<exists>x y. call = PixelCall x y color
                \<and> between X0 X1 x \<and> between Y0 Y1 y"
      by auto
    have r: "ILI9341DrawLine s x0 y0 x1 y1 color = Some (PixelCall X0 Y0 color # cs)"
      unfolding unf using False l by (simp add: err_def)
    have sub: "drawn_pixels (PixelCall X0 Y0 color # cs) \<subseteq> {(x, y). x < width s \<and> y < height s}"
    proof
      fix p assume "p \<in> drawn_pixels (PixelCall X0 Y0 color # cs)"
      then consider "p = (X0, Y0)" | call where "call \<in> set cs" "p \<in> call_pixels call"
        by (auto simp add: drawn_pixels_def)
      then show "p \<in> {(x, y). x < width s \<and> y < height s}"
      proof cases
        case 1
        then show ?thesis using lt by simp
      next
        case 2
        with b obtain x y where "call = PixelCall x y color" "between X0 X1 x" "between Y0 Y1 y"
          by blast
        then show ?thesis using 2(2) lt between_less by auto
      qed
    qed
    have corner: "(X0, Y0) \<in> drawn_pixels (PixelCall X0 Y0 color # cs)"
      by (simp add: drawn_pixels_def)
    have "\<forall>call \<in> set (PixelCall X0 Y0 color # cs). \<exists>x y c. call = PixelCall x y c"
      using b by auto
    from exec_calls_pixels [OF this] have ex: "\<exists>evs. exec_calls (PixelCall X0 Y0 color # cs) = Inr evs" .
    show ?thesis unfolding r using sub corner ex by blast
  qed
qed

lemma DrawLine_clamped:
  "ILI9341DrawLine s x0 y0 x1 y1 color =
     ILI9341DrawLine s (clamp_coordinate (width s) x0) (clamp_coordinate (height s) y0)
       (clamp_coordinate (width s) x1) (clamp_coordinate (height s) y1) color"
  by (simp only: ILI9341DrawLine_def clamp_fix [unfolded clamp_coordinate_def] Let_def
      clamp_coordinate_def)

lemma Rotate_dims_bounds:
  "width (snd (ILI9341Rotate t s)) \<noteq> 0 \<and> uint (width (snd (ILI9341Rotate t s))) \<le> 32768
   \<and> height (snd (ILI9341Rotate t s)) \<noteq> 0 \<and> uint (height (snd (ILI9341Rotate t s))) \<le> 32768"
  by (cases t) (simp_all add: ILI9341_WIDTH_def ILI9341_HEIGHT_def)

text \<open>
  C8. In every orientation \<open>ILI9341DrawLine\<close> clamps: a call is the call on the clamped
  coordinates (a coordinate at or beyond the width or height becomes that dimension
  minus 1), the clamped coordinates are inside the panel, the call returns, every pixel
  it addresses is inside the panel, the clamped start point is among them, and the
  transport run has no fault. \<open>ILI9341DrawPixel\<close> and \<open>SetCursorPosition\<close> do not read the
  orientation: for all coordinates, in range or not, they send the bytes of the
  coordinates they are given, and have no fault either.
\<close>

theorem C8_clamping:
  "ILI9341DrawLine (snd (ILI9341Rotate t s)) x0 y0 x1 y1 color =
     ILI9341DrawLine (snd (ILI9341Rotate t s))
       (clamp_coordinate (width (snd (ILI9341Rotate t s))) x0)
       (clamp_coordinate (height (snd (ILI9341Rotate t s))) y0)
       (clamp_coordinate (width (snd (ILI9341Rotate t s))) x1)
       (clamp_coordinate (height (snd (ILI9341Rotate t s))) y1) color
   \<and> clamp_coordinate (width (snd (ILI9341Rotate t s))) x0 < width (snd (ILI9341Rotate t s))
   \<and> clamp_coordinate (height (snd (ILI9341Rotate t s))) y0 < height (snd (ILI9341Rotate t s))
   \<and> (\<exists>cs. ILI9341DrawLine (snd (ILI9341Rotate t s)) x0 y0 x1 y1 color = Some cs
        \<and> drawn_pixels cs \<subseteq> {(x, y). x < width (snd (ILI9341Rotate t s))
                                    \<and> y < height (snd (ILI9341Rotate t s))}
        \<and> (clamp_coordinate (width (snd (ILI9341Rotate t s))) x0,
            clamp_coordinate (height (snd (ILI9341Rotate t s))) y0) \<in> drawn_pixels cs
        \<and> (\<exists>evs. exec_calls cs = Inr evs))
   \<and> ILI9341DrawPixel x y color =
       Inr [Command COLUMN_ADDR_SET, Data [HighByte x, LowByte x, HighByte x, LowByte x],
            Command PAGE_ADDR_SET, Data [HighByte y, LowByte y, HighByte y, LowByte y],
            Command MEM_WRITE, Data [HighByte color, LowByte color]]
   \<and> SetCursorPosition x0 y0 x1 y1 =
       Inr [Command COLUMN_ADDR_SET,
            Data [HighByte (min x0 x1), LowByte (min x0 x1),
                  HighByte (max x0 x1), LowByte (max x0 x1)],
            Command PAGE_ADDR_SET,
            Data [HighByte (min y0 y1), LowByte (min y0 y1),
                  HighByte (max y0 y1), LowByte (max y0 y1)]]
   \<and> uint x = 256 * uint (HighByte x) + uint (LowByte x)"
proof -
  let ?s = "snd (ILI9341Rotate t s)"
  from Rotate_dims_bounds [of t s]
  have w: "width ?s \<noteq> 0" "uint (width ?s) \<le> 32768"
    and h: "height ?s \<noteq> 0" "uint (height ?s) \<le> 32768"
    by simp_all
  note a = DrawLine_clamped [of ?s x0 y0 x1 y1 color]
  note b = clamp_less [OF w(1), of x0] clamp_less [OF h(1), of y0]
  note c = DrawLine_result [OF w h, of x0 y0 x1 y1 color]
  note d = DrawPixel_trace [of x y color]
  note e = SetCursorPosition_trace [of x0 y0 x1 y1]
  have f: "uint x = 256 * uint (HighByte x) + uint (LowByte x)"
    by (simp add: HighByte_uint LowByte_uint)
  from a b c d e f show ?thesis by (intro conjI)
qed

end
